theory Spec2Isabelle
  imports Complex_Main
begin

section \<open>Configuration constants of gen_teaser_v6.py\<close>

text \<open>
  The scripts are Python. Python's unbounded integers are HOL integers and Python's
  floats are real numbers. The scroll controller and the progress of the spinner compute
  in IEEE 754 binary64: each of their operations is the exact operation followed by
  the rounding \<open>fl\<close> below. The sample positions of the audio and the colour of the
  breathing signoff are written in exact arithmetic.
\<close>

definition W :: int where "W = 3840"
definition H :: int where "H = 2160"
definition PAD_X :: int where "PAD_X = 112"
definition PAD_Y :: int where "PAD_Y = 80"
definition TITLE_BAR_H :: int where "TITLE_BAR_H = 96"
definition LINE_H :: int where "LINE_H = 92"
definition FPS :: int where "FPS = 24"
definition BLINK_INTERVAL :: int where "BLINK_INTERVAL = 12"
definition SAMPLE_RATE :: int where "SAMPLE_RATE = 44100"

text \<open>Python's \<open>int(x)\<close> on a float truncates towards zero.\<close>

definition py_int :: "real \<Rightarrow> int" where
  "py_int x = (if 0 \<le> x then \<lfloor>x\<rfloor> else \<lceil>x\<rceil>)"

section \<open>Binary64 rounding\<close>

text \<open>
  \<open>fl x\<close> is the double nearest to \<open>x\<close>: 53 significant bits, round to nearest, ties
  to the even significand, gradual underflow below \<open>2^-1022\<close>. A result of magnitude
  \<open>2^1024\<close> or more, which the hardware replaces by an infinity, is not modelled; every
  theorem about \<open>fl\<close> bounds its inputs so that none arises.
\<close>

definition round_half_even :: "real \<Rightarrow> int" where
  "round_half_even y =
     (let f = \<lfloor>y\<rfloor>; r = y - of_int f
      in if r < 1 / 2 then f else if 1 / 2 < r then f + 1 else if even f then f else f + 1)"

definition bexp :: "real \<Rightarrow> int" where
  "bexp x = max \<lfloor>log 2 \<bar>x\<bar>\<rfloor> (- 1022)"

definition fl :: "real \<Rightarrow> real" where
  "fl x = (if x = 0 then 0
           else let q = 2 powr (of_int (bexp x) - 52)
                in of_int (round_half_even (x / q)) * q)"

text \<open>The literal \<open>0.15\<close> denotes the double nearest to 15/100.\<close>

definition SCROLL_SPEED :: real where "SCROLL_SPEED = fl (15 / 100)"

section \<open>Scroll controller\<close>

definition content_bottom :: "'a list \<Rightarrow> int" where
  "content_bottom lines = int (length lines) * LINE_H"

definition target_scroll :: "'a list \<Rightarrow> int" where
  "target_scroll lines =
     (let content_h = content_bottom lines;
          viewport_h = H - TITLE_BAR_H - PAD_Y * 2
      in max 0 (content_h - viewport_h + LINE_H * 2))"

text \<open>
  \<open>target - current\<close>, \<open>diff * SCROLL_SPEED\<close> and \<open>current + ...\<close> are float
  operations (an integer operand is converted first, which is the same rounding of
  the exact result); the branch \<open>return target\<close> returns the argument unchanged.
\<close>

definition smooth_scroll :: "real \<Rightarrow> real \<Rightarrow> real" where
  "smooth_scroll current target =
     (let diff = fl (target - current)
      in if \<bar>diff\<bar> < 1 then target else fl (current + fl (diff * SCROLL_SPEED)))"

text \<open>
  \<open>scroll_iter k current target\<close> is the offset after \<open>k\<close> ticks of
  \<open>scroll_y = smooth_scroll(scroll_y, tgt)\<close> with the target held fixed.
\<close>

definition scroll_iter :: "nat \<Rightarrow> real \<Rightarrow> real \<Rightarrow> real" where
  "scroll_iter k current target = ((\<lambda>c. smooth_scroll c target) ^^ k) current"

section \<open>Renderer\<close>

text \<open>
  A Python string is a sequence of code points, here a list of natural numbers
  (\<open>ascii\<close> embeds an ASCII literal). A colour is an RGB triple, a line of the
  terminal is a list of \<open>(text, color)\<close> runs (the source calls it \<open>parts\<close>), and an
  image is a function from pixel coordinates to colours; only \<open>0 \<le> x < W\<close>,
  \<open>0 \<le> y < H\<close> belong to the picture.
\<close>

type_synonym pystr = "nat list"
type_synonym color = "int \<times> int \<times> int"
type_synonym parts = "(pystr \<times> color) list"
type_synonym box = "int \<times> int \<times> int \<times> int"
type_synonym canvas = "int \<times> int \<Rightarrow> color"

definition ascii :: "string \<Rightarrow> pystr" where
  "ascii s = map of_char s"

definition BG :: color where "BG = (13, 13, 15)"
definition TITLE_BG :: color where "TITLE_BG = (30, 30, 34)"
definition DIM :: color where "DIM = (120, 120, 130)"
definition PRIMARY :: color where "PRIMARY = (251, 113, 133)"
definition GREEN :: color where "GREEN = (52, 211, 153)"
definition YELLOW :: color where "YELLOW = (250, 204, 21)"
definition CYAN :: color where "CYAN = (103, 232, 249)"
definition PROMPT_COLOR :: color where "PROMPT_COLOR = PRIMARY"
definition CURSOR_COLOR :: color where "CURSOR_COLOR = PRIMARY"
definition BAR_BG :: color where "BAR_BG = (40, 40, 48)"
definition CYCLE_COLORS :: "color list" where
  "CYCLE_COLORS = [PRIMARY, GREEN, CYAN, YELLOW]"

text \<open>\<open>PROMPT_ICON\<close> is the one-character string U+6728.\<close>

definition PROMPT_ICON :: pystr where "PROMPT_ICON = [26408]"
definition PROMPT :: parts where "PROMPT = [(PROMPT_ICON @ ascii '' '', PROMPT_COLOR)]"

text \<open>
  The drawing primitives of the imaging library are not part of the repository.
  \<open>rectangle\<close> is written out (a filled box, both corners included); how text, an
  ellipse and a rounded rectangle are rasterised, and the glyph width \<open>CHAR_W\<close> measured
  from whichever font was found, are parameters collected in the record \<open>pil\<close>.
\<close>

datatype font = Font | CjkFont | SmallFont

record pil =
  draw_text :: "font \<Rightarrow> int \<times> int \<Rightarrow> pystr \<Rightarrow> color \<Rightarrow> canvas \<Rightarrow> canvas"
  ellipse_cover :: "box \<Rightarrow> int \<times> int \<Rightarrow> bool"
  rounded_cover :: "box \<Rightarrow> int \<Rightarrow> int \<times> int \<Rightarrow> bool"
  CHAR_W :: int

definition rectangle :: "box \<Rightarrow> color \<Rightarrow> canvas \<Rightarrow> canvas" where
  "rectangle b fill img =
     (case b of (x0, y0, x1, y1) \<Rightarrow>
        (\<lambda>(x, y). if x0 \<le> x \<and> x \<le> x1 \<and> y0 \<le> y \<and> y \<le> y1 then fill else img (x, y)))"

definition ellipse :: "pil \<Rightarrow> box \<Rightarrow> color \<Rightarrow> canvas \<Rightarrow> canvas" where
  "ellipse P b fill img = (\<lambda>p. if ellipse_cover P b p then fill else img p)"

definition rounded_rectangle :: "pil \<Rightarrow> box \<Rightarrow> int \<Rightarrow> color \<Rightarrow> canvas \<Rightarrow> canvas" where
  "rounded_rectangle P b radius fill img = (\<lambda>p. if rounded_cover P b radius p then fill else img p)"

text \<open>Python's \<open>sub in s\<close> on strings: \<open>sub\<close> occurs as a contiguous piece of \<open>s\<close>.\<close>

definition py_in :: "pystr \<Rightarrow> pystr \<Rightarrow> bool" where
  "py_in sub s = list_ex (\<lambda>i. take (length sub) (drop i s) = sub) [0..<Suc (length s)]"

definition draw_title_bar :: "pil \<Rightarrow> canvas \<Rightarrow> canvas" where
  "draw_title_bar P img =
     (let img1 = rectangle (0, 0, W, TITLE_BAR_H) TITLE_BG img;
          dot_y = TITLE_BAR_H div 2;
          dot_r = 14
      in fold (\<lambda>(i, c) im.
                 let cx = 48 + int i * 48
                 in ellipse P (cx - dot_r, dot_y - dot_r, cx + dot_r, dot_y + dot_r) c im)
           (enumerate 0 [(255, 95, 86), (255, 189, 46), (39, 201, 63)]) img1)"

text \<open>
  The inner loop \<open>for text, color in parts\<close>: it draws the runs left to right from
  \<open>x\<close> and returns the final \<open>x\<close>. \<open>override\<close> is the colour that replaces every
  run's own (\<open>is_signoff and signoff_color\<close> in the line loop, never in the cursor loop).
\<close>

fun draw_parts :: "pil \<Rightarrow> color option \<Rightarrow> int \<Rightarrow> parts \<Rightarrow> int \<times> canvas \<Rightarrow> int \<times> canvas" where
  "draw_parts P override y [] (x, img) = (x, img)"
| "draw_parts P override y ((text, color) # rest) (x, img) =
     (let color' = (case override of Some c \<Rightarrow> c | None \<Rightarrow> color);
          img' = (if py_in PROMPT_ICON text
                  then draw_text P CjkFont (x, y) text color' img
                  else draw_text P Font (x, y) text color' img)
      in draw_parts P override y rest (x + int (length text) * CHAR_W P, img'))"

definition is_signoff :: "parts \<Rightarrow> bool" where
  "is_signoff ps = (length ps = 1 \<and> fst (hd ps) = PROMPT_ICON)"

text \<open>The loop \<open>for idx, parts in enumerate(lines)\<close>, started at index \<open>idx\<close>.\<close>

fun draw_lines :: "pil \<Rightarrow> color option \<Rightarrow> int \<Rightarrow> nat \<Rightarrow> parts list \<Rightarrow> canvas \<Rightarrow> canvas" where
  "draw_lines P signoff_color base_y idx [] img = img"
| "draw_lines P signoff_color base_y idx (ps # rest) img =
     (let y = base_y + int idx * LINE_H
      in draw_lines P signoff_color base_y (Suc idx) rest
           (if y < TITLE_BAR_H - LINE_H \<or> y > H then img
            else snd (draw_parts P (if is_signoff ps then signoff_color else None) y ps
                        (PAD_X, img))))"

definition draw_cursor :: "pil \<Rightarrow> int \<Rightarrow> nat \<Rightarrow> parts \<Rightarrow> canvas \<Rightarrow> canvas" where
  "draw_cursor P base_y n_lines cursor_parts img =
     (let y = base_y + int n_lines * LINE_H
      in if cursor_parts \<noteq> [] then
           (if TITLE_BAR_H \<le> y \<and> y \<le> H then
              (case draw_parts P None y cursor_parts (PAD_X, img) of
                 (x, img') \<Rightarrow>
                   rectangle (x, y + 8, x + CHAR_W P - 8, y + LINE_H - 16) CURSOR_COLOR img')
            else img)
         else
           (if TITLE_BAR_H \<le> y \<and> y \<le> H then
              rectangle (PAD_X, y + 8, PAD_X + CHAR_W P - 8, y + LINE_H - 16) CURSOR_COLOR img
            else img))"

text \<open>
  \<open>render_frame\<close>: \<open>cursor_parts\<close>, \<open>extra_draw\<close> and \<open>signoff_color\<close> default to
  \<open>None\<close>; the callback receives the canvas drawn so far, \<open>base_y\<close> and the number of
  lines and returns the canvas it has drawn on.
\<close>

definition render_frame ::
  "pil \<Rightarrow> parts list \<Rightarrow> real \<Rightarrow> parts option \<Rightarrow> bool
     \<Rightarrow> (canvas \<Rightarrow> int \<Rightarrow> nat \<Rightarrow> canvas) option \<Rightarrow> color option \<Rightarrow> canvas" where
  "render_frame P lines scroll_offset cursor_parts cursor_visible extra_draw signoff_color =
     (let img0 = (\<lambda>_. BG);
          base_y = TITLE_BAR_H + PAD_Y - py_int scroll_offset;
          img1 = draw_lines P signoff_color base_y 0 lines img0;
          img2 = (if cursor_visible then
                    (case cursor_parts of
                       None \<Rightarrow> img1
                     | Some cp \<Rightarrow> draw_cursor P base_y (length lines) cp img1)
                  else img1);
          img3 = (case extra_draw of
                    None \<Rightarrow> img2
                  | Some f \<Rightarrow> f img2 base_y (length lines));
          img4 = rectangle (0, 0, W, TITLE_BAR_H) TITLE_BG img3
      in draw_title_bar P img4)"

section \<open>Timeline builder\<close>

text \<open>
  The module-level variables \<open>frames\<close>, \<open>current_lines\<close>, \<open>scroll_y\<close>,
  \<open>tok_frames\<close> and \<open>bell_frames\<close> form the state, which every beat takes and returns.
  An uncaught exception ends the script, so a failing beat returns the exception.
\<close>

datatype error = ZeroDivisionError | IndexError

record timeline =
  frames :: "canvas list"
  current_lines :: "parts list"
  scroll_y :: real
  tok_frames :: "nat list"
  bell_frames :: "nat list"

definition initial :: timeline where
  "initial = \<lparr>frames = [], current_lines = [], scroll_y = 0, tok_frames = [], bell_frames = []\<rparr>"

text \<open>One iteration of \<open>for i in range(len(text))\<close> in \<open>add_typing\<close>.\<close>

definition typing_step :: "pil \<Rightarrow> pystr \<Rightarrow> color \<Rightarrow> parts \<Rightarrow> int \<Rightarrow> nat \<Rightarrow> timeline \<Rightarrow> timeline" where
  "typing_step P text color prefix speed i s =
     (let partial = take (i + 1) text;
          cursor_parts = prefix @ [(partial, color)];
          tgt = target_scroll (current_lines s @ [cursor_parts]);
          sy = smooth_scroll (scroll_y s) (real_of_int tgt);
          f = render_frame P (current_lines s) sy (Some cursor_parts) True None None
      in if int i mod speed = 0
         then s\<lparr>scroll_y := sy, frames := frames s @ [f]\<rparr>
         else s\<lparr>scroll_y := sy\<rparr>)"

text \<open>
  \<open>i % speed\<close> raises ZeroDivisionError when \<open>speed\<close> is 0, in the first iteration;
  with an empty text the loop body never runs.
\<close>

definition add_typing ::
  "pil \<Rightarrow> pystr \<Rightarrow> color \<Rightarrow> bool \<Rightarrow> int \<Rightarrow> bool \<Rightarrow> timeline \<Rightarrow> error + timeline" where
  "add_typing P text color prompt speed use_prompt s =
     (let prefix = (if prompt \<and> use_prompt then PROMPT else [])
      in if text \<noteq> [] \<and> speed = 0 then Inl ZeroDivisionError
         else Inr (fold (typing_step P text color prefix speed) [0..<length text] s))"

definition add_tok :: "timeline \<Rightarrow> timeline" where
  "add_tok s = s\<lparr>tok_frames := tok_frames s @ [length (frames s)]\<rparr>"

definition add_bell :: "timeline \<Rightarrow> timeline" where
  "add_bell s = s\<lparr>bell_frames := bell_frames s @ [length (frames s)]\<rparr>"

text \<open>
  A tick that scrolls towards \<open>target_scroll(current_lines)\<close> and captures one frame
  with the given cursor, visibility and signoff colour: the common body of the pause,
  output and breathing loops and of the loops written inline in the script.
\<close>

definition tick :: "pil \<Rightarrow> parts option \<Rightarrow> bool \<Rightarrow> color option \<Rightarrow> timeline \<Rightarrow> timeline" where
  "tick P cursor vis signoff_color s =
     (let tgt = target_scroll (current_lines s);
          sy = smooth_scroll (scroll_y s) (real_of_int tgt);
          f = render_frame P (current_lines s) sy cursor vis None signoff_color
      in s\<lparr>scroll_y := sy, frames := frames s @ [f]\<rparr>)"

definition blink_vis :: "bool \<Rightarrow> nat \<Rightarrow> bool" where
  "blink_vis blink i = (if blink then (int i div BLINK_INTERVAL) mod 2 = 0 else True)"

text \<open>\<open>range(n)\<close> is empty for \<open>n \<le> 0\<close>, hence the loops run \<open>nat n\<close> times.\<close>

definition add_pause :: "pil \<Rightarrow> int \<Rightarrow> bool \<Rightarrow> timeline \<Rightarrow> timeline" where
  "add_pause P n_frames blink s =
     fold (\<lambda>i. tick P (Some PROMPT) (blink_vis blink i) None) [0..<nat n_frames] s"

definition add_pause_no_prompt :: "pil \<Rightarrow> int \<Rightarrow> bool \<Rightarrow> timeline \<Rightarrow> timeline" where
  "add_pause_no_prompt P n_frames blink s =
     fold (\<lambda>i. tick P (Some []) (blink_vis blink i) None) [0..<nat n_frames] s"

definition add_output_lines :: "pil \<Rightarrow> parts list \<Rightarrow> int \<Rightarrow> timeline \<Rightarrow> timeline" where
  "add_output_lines P output delay s =
     fold (\<lambda>line s1.
             fold (\<lambda>_. tick P None True None) [0..<nat delay]
               (s1\<lparr>current_lines := current_lines s1 @ [line]\<rparr>))
       output s"

subsection \<open>Spinner and progress bar\<close>

text \<open>Python's \<open>str\<close> of an integer, as used by the f-string of the percentage.\<close>

fun dec_digits :: "nat \<Rightarrow> pystr" where
  "dec_digits n = (if n < 10 then [48 + n] else dec_digits (n div 10) @ [48 + n mod 10])"

declare dec_digits.simps [simp del]

definition py_str :: "int \<Rightarrow> pystr" where
  "py_str n = (if n < 0 then 45 # dec_digits (nat (- n)) else dec_digits (nat n))"

text \<open>
  The progress of tick \<open>i\<close> is computed in doubles: the quotient of the two integers, the
  difference, the product and the sum are each rounded. So are the products that
  \<open>int()\<close> truncates to the fill width and to the percentage.
\<close>

definition progress_at :: "int \<Rightarrow> real \<Rightarrow> real \<Rightarrow> nat \<Rightarrow> real" where
  "progress_at n_frames progress_start progress_end i =
     fl (progress_start
          + fl (fl (progress_end - progress_start)
                 * fl (real i / real_of_int (max (n_frames - 1) 1))))"

definition bar_w :: int where "bar_w = 880"

definition fill_w :: "real \<Rightarrow> int" where
  "fill_w p = py_int (fl (real_of_int bar_w * p))"

definition draw_extra ::
  "pil \<Rightarrow> real \<Rightarrow> color \<Rightarrow> pystr \<Rightarrow> int \<Rightarrow> canvas \<Rightarrow> int \<Rightarrow> nat \<Rightarrow> canvas" where
  "draw_extra P p cc st pc img base_y n_lines =
     (let y1 = base_y + int n_lines * LINE_H;
          img1 = (if TITLE_BAR_H \<le> y1 \<and> y1 \<le> H then
                    (let x = PAD_X + 2 * CHAR_W P
                     in draw_text P Font (x + 2 * CHAR_W P, y1) st DIM
                          (draw_text P CjkFont (x, y1) (PROMPT_ICON @ ascii '' '') cc img))
                  else img);
          y2 = base_y + (int n_lines + 1) * LINE_H
      in if TITLE_BAR_H \<le> y2 \<and> y2 \<le> H then
           (let bar_x = PAD_X + 2 * CHAR_W P;
                bar_h = 36;
                bar_y = y2 + (LINE_H - bar_h) div 2;
                img2 = rounded_rectangle P (bar_x, bar_y, bar_x + bar_w, bar_y + bar_h) 10
                         BAR_BG img1;
                img3 = (if fill_w p > 10
                        then rounded_rectangle P
                               (bar_x, bar_y, bar_x + fill_w p, bar_y + bar_h) 10 cc img2
                        else img2)
            in draw_text P SmallFont (bar_x + bar_w + 32, y2) (py_str pc @ ascii ''%'') DIM img3)
         else img1)"

definition spinner_step :: "pil \<Rightarrow> pystr \<Rightarrow> int \<Rightarrow> real \<Rightarrow> real \<Rightarrow> nat \<Rightarrow> timeline \<Rightarrow> timeline" where
  "spinner_step P status_text n_frames progress_start progress_end i s =
     (let progress = progress_at n_frames progress_start progress_end i;
          cycle_color = CYCLE_COLORS ! (i mod length CYCLE_COLORS);
          pct = py_int (fl (progress * 100));
          tgt = target_scroll (current_lines s);
          sy = smooth_scroll (scroll_y s) (real_of_int (tgt + LINE_H * 3));
          f = render_frame P (current_lines s) sy None True
                (Some (draw_extra P progress cycle_color status_text pct)) None
      in s\<lparr>scroll_y := sy, frames := frames s @ [f]\<rparr>)"

definition add_spinner_progress ::
  "pil \<Rightarrow> pystr \<Rightarrow> int \<Rightarrow> real \<Rightarrow> real \<Rightarrow> timeline \<Rightarrow> timeline" where
  "add_spinner_progress P status_text n_frames progress_start progress_end s =
     fold (spinner_step P status_text n_frames progress_start progress_end) [0..<nat n_frames] s"

subsection \<open>Breathing signoff\<close>

definition lerp_color :: "color \<Rightarrow> color \<Rightarrow> real \<Rightarrow> color" where
  "lerp_color c1 c2 t =
     (case (c1, c2) of
        ((a1, a2, a3), (b1, b2, b3)) \<Rightarrow>
          (py_int (real_of_int a1 + real_of_int (b1 - a1) * t),
           py_int (real_of_int a2 + real_of_int (b2 - a2) * t),
           py_int (real_of_int a3 + real_of_int (b3 - a3) * t)))"

definition breath_color :: "nat \<Rightarrow> real \<Rightarrow> color" where
  "breath_color frame_i speed =
     (let dim_rose = (50, 20, 25);
          t = (sin (real frame_i * speed) + 1) / 2
      in lerp_color dim_rose PRIMARY t)"

definition add_breathing_pause :: "pil \<Rightarrow> int \<Rightarrow> timeline \<Rightarrow> timeline" where
  "add_breathing_pause P n_frames s =
     fold (\<lambda>i. tick P None True (Some (breath_color i (18 / 100)))) [0..<nat n_frames] s"

text \<open>
  gen_teaser_v4.py recolours the signoff line in the buffer instead. Its own
  \<open>render_frame\<close> (with \<open>prompt_color_override\<close>) is the parameter \<open>render\<close>.
\<close>

definition breathing_step_v4 ::
  "(parts list \<Rightarrow> real \<Rightarrow> color \<Rightarrow> canvas) \<Rightarrow> nat \<Rightarrow> timeline \<Rightarrow> timeline" where
  "breathing_step_v4 render i s =
     (let tgt = target_scroll (current_lines s);
          sy = smooth_scroll (scroll_y s) (real_of_int tgt);
          bc = breath_color i (18 / 100);
          ls = current_lines s;
          ls' = (if ls \<noteq> [] \<and> length (last ls) = 1 \<and> fst (hd (last ls)) = PROMPT_ICON
                 then ls[length ls - 1 := [(PROMPT_ICON, bc)]] else ls);
          f = render ls' sy bc
      in s\<lparr>current_lines := ls', scroll_y := sy, frames := frames s @ [f]\<rparr>)"

definition add_breathing_pause_v4 ::
  "(parts list \<Rightarrow> real \<Rightarrow> color \<Rightarrow> canvas) \<Rightarrow> int \<Rightarrow> timeline \<Rightarrow> timeline" where
  "add_breathing_pause_v4 render n_frames s =
     fold (breathing_step_v4 render) [0..<nat n_frames] s"

subsection \<open>The script as a sequence of steps\<close>

text \<open>
  The script part of the file is straight-line code: calls of the beats, appends to
  \<open>current_lines\<close>, assignments to \<open>current_lines[-1]\<close> (IndexError on an empty
  buffer) and, in the wink animation, inline loops \<open>for _ in range(k)\<close> that capture
  \<open>k\<close> plain frames.
\<close>

datatype step =
    AddTyping pystr color bool int bool
  | AddTok
  | AddBell
  | AddPause int bool
  | AddPauseNoPrompt int bool
  | AddOutputLines "parts list" int
  | AddSpinnerProgress pystr int real real
  | AddBreathingPause int
  | AppendLine parts
  | SetLastLine parts
  | InlineFrames int

fun exec_step :: "pil \<Rightarrow> step \<Rightarrow> timeline \<Rightarrow> error + timeline" where
  "exec_step P (AddTyping text color prompt speed use_prompt) s =
     add_typing P text color prompt speed use_prompt s"
| "exec_step P AddTok s = Inr (add_tok s)"
| "exec_step P AddBell s = Inr (add_bell s)"
| "exec_step P (AddPause n blink) s = Inr (add_pause P n blink s)"
| "exec_step P (AddPauseNoPrompt n blink) s = Inr (add_pause_no_prompt P n blink s)"
| "exec_step P (AddOutputLines output delay) s = Inr (add_output_lines P output delay s)"
| "exec_step P (AddSpinnerProgress st n ps pe) s = Inr (add_spinner_progress P st n ps pe s)"
| "exec_step P (AddBreathingPause n) s = Inr (add_breathing_pause P n s)"
| "exec_step P (AppendLine l) s = Inr (s\<lparr>current_lines := current_lines s @ [l]\<rparr>)"
| "exec_step P (SetLastLine l) s =
     (if current_lines s = [] then Inl IndexError
      else Inr (s\<lparr>current_lines := (current_lines s)[length (current_lines s) - 1 := l]\<rparr>))"
| "exec_step P (InlineFrames n) s = Inr (fold (\<lambda>_. tick P None True None) [0..<nat n] s)"

fun run :: "pil \<Rightarrow> step list \<Rightarrow> timeline \<Rightarrow> error + timeline" where
  "run P [] s = Inr s"
| "run P (st # rest) s =
     (case exec_step P st s of Inl e \<Rightarrow> Inl e | Inr s' \<Rightarrow> run P rest s')"

text \<open>The source's opening and its closing wink and signoff section, as steps.\<close>

definition COMMENT_COLOR :: color where "COMMENT_COLOR = (180, 180, 195)"

definition opening_script :: "step list" where
  "opening_script =
     [AddPauseNoPrompt (FPS div 2) True,
      AddTyping (ascii ''# what if your AI agent could do sales research?'') COMMENT_COLOR
        True 2 False,
      AppendLine [(ascii ''# what if your AI agent could do sales research?'', COMMENT_COLOR)],
      AddPauseNoPrompt FPS True,
      AddTyping (ascii ''# let's find warm paths into a target account.'') COMMENT_COLOR
        True 2 False,
      AppendLine [(ascii ''# let's find warm paths into a target account.'', COMMENT_COLOR)],
      AddPauseNoPrompt FPS True,
      AppendLine []]"

definition wink_line_with :: parts where
  "wink_line_with =
     [(ascii ''# made for machines ... and humans '', PRIMARY), (ascii '';)'', PRIMARY)]"

definition wink_line_without :: parts where
  "wink_line_without = [(ascii ''# made for machines ... and humans'', PRIMARY)]"

definition closing_script :: "step list" where
  "closing_script =
     concat (replicate 3
       [SetLastLine wink_line_with, InlineFrames 5, SetLastLine wink_line_without, InlineFrames 4])
     @ [SetLastLine wink_line_with,
        AddPauseNoPrompt FPS False,
        AppendLine [],
        AppendLine [(PROMPT_ICON, PRIMARY)],
        AddBreathingPause (FPS * 4)]"

text \<open>
  The ticks a step requests, in the words of the specification: a pause, a spinner, a
  breathing pause or an inline loop of \<open>n\<close> frames requests \<open>n\<close> ticks, an output block
  \<open>len(output) * delay\<close>, typing one tick per index \<open>i < len(text)\<close> with
  \<open>i mod speed = 0\<close>; a negative count requests none.
\<close>

fun ticks :: "step \<Rightarrow> nat" where
  "ticks (AddTyping text color prompt speed use_prompt) =
     length (filter (\<lambda>i. int i mod speed = 0) [0..<length text])"
| "ticks (AddPause n blink) = nat n"
| "ticks (AddPauseNoPrompt n blink) = nat n"
| "ticks (AddOutputLines output delay) = length output * nat delay"
| "ticks (AddSpinnerProgress st n ps pe) = nat n"
| "ticks (AddBreathingPause n) = nat n"
| "ticks (InlineFrames n) = nat n"
| "ticks AddTok = 0"
| "ticks AddBell = 0"
| "ticks (AppendLine l) = 0"
| "ticks (SetLastLine l) = 0"

section \<open>Audio synthesizer\<close>

text \<open>
  Frame counts and event frame indices are lengths of the frame list, hence natural
  numbers. The waveforms \<open>tok\<close> and \<open>bell\<close> stand for the sample lists returned by
  \<open>generate_tok_samples()\<close> and \<open>generate_bell_samples()\<close>; \<open>generate_audio\<close> returns
  the 16-bit samples it writes to the WAV file, in order.
\<close>

definition total_samples :: "nat \<Rightarrow> int" where
  "total_samples total_frames =
     (let total_seconds = real total_frames / real_of_int FPS
      in py_int (total_seconds * real_of_int SAMPLE_RATE))"

definition event_pos :: "nat \<Rightarrow> int" where
  "event_pos frame_num = py_int ((real frame_num / real_of_int FPS) * real_of_int SAMPLE_RATE)"

text \<open>
  The loop \<open>for i, val in enumerate(wave)\<close> of one event; \<open>idx\<close> is never negative
  because \<open>pos\<close> is not.
\<close>

definition add_wave :: "int \<Rightarrow> int \<Rightarrow> real list \<Rightarrow> real list \<Rightarrow> real list" where
  "add_wave n_samples pos wave audio =
     fold (\<lambda>(i, val) a.
             let idx = pos + int i
             in if idx < n_samples then a[nat idx := a ! nat idx + val] else a)
       (enumerate 0 wave) audio"

definition mix_events :: "int \<Rightarrow> real list \<Rightarrow> nat list \<Rightarrow> real list \<Rightarrow> real list" where
  "mix_events n_samples wave event_frames audio =
     fold (\<lambda>frame_num a. add_wave n_samples (event_pos frame_num) wave a) event_frames audio"

definition mix_audio :: "real list \<Rightarrow> real list \<Rightarrow> nat \<Rightarrow> nat list \<Rightarrow> nat list \<Rightarrow> real list" where
  "mix_audio tok bell total_frames tok_fs bell_fs =
     (let n = total_samples total_frames;
          audio = replicate (nat n) 0
      in mix_events n bell bell_fs (mix_events n tok tok_fs audio))"

definition quantize :: "real \<Rightarrow> int" where
  "quantize sample = (let clamped = max (- 1) (min 1 sample) in py_int (clamped * 32767))"

definition generate_audio :: "real list \<Rightarrow> real list \<Rightarrow> nat \<Rightarrow> nat list \<Rightarrow> nat list \<Rightarrow> int list" where
  "generate_audio tok bell total_frames tok_fs bell_fs =
     map quantize (mix_audio tok bell total_frames tok_fs bell_fs)"

section \<open>Auxiliary definitions for the proofs\<close>

text \<open>
  \<open>script_ok n steps\<close> is a static check of a script against a buffer of \<open>n\<close>
  lines: no typing beat has speed 0 on a non-empty text, and every assignment to
  \<open>current_lines[-1]\<close> finds a line. It is sufficient for the script to run without
  an exception.
\<close>

fun script_ok :: "nat \<Rightarrow> step list \<Rightarrow> bool" where
  "script_ok n [] = True"
| "script_ok n (AddTyping t c p sp u # rest) = ((sp \<noteq> 0 \<or> t = []) \<and> script_ok n rest)"
| "script_ok n (SetLastLine l # rest) = (0 < n \<and> script_ok n rest)"
| "script_ok n (AppendLine l # rest) = script_ok (Suc n) rest"
| "script_ok n (AddOutputLines out d # rest) = script_ok (n + length out) rest"
| "script_ok n (st # rest) = script_ok n rest"

text \<open>
  A simple rasteriser for worked examples: text is drawn as a solid block of
  38 by 64 pixels per character, an ellipse is the set of pixels within the inscribed
  ellipse of its box, a rounded rectangle is its box.
\<close>

definition demo_pil :: pil where
  "demo_pil =
     \<lparr>draw_text = (\<lambda>f (x, y) t c img. rectangle (x, y, x + int (length t) * 38 - 1, y + 63) c img),
      ellipse_cover = (\<lambda>(x0, y0, x1, y1) (x, y).
         (2 * x - x0 - x1)\<^sup>2 * (y1 - y0)\<^sup>2 + (2 * y - y0 - y1)\<^sup>2 * (x1 - x0)\<^sup>2
           \<le> (x1 - x0)\<^sup>2 * (y1 - y0)\<^sup>2),
      rounded_cover = (\<lambda>(x0, y0, x1, y1) r (x, y). x0 \<le> x \<and> x \<le> x1 \<and> y0 \<le> y \<and> y \<le> y1),
      CHAR_W = 38\<rparr>"

section \<open>What a frame shows\<close>




text \<open>
  \<open>progress_frame\<close> is the line buffer, the status line below it and, one row further
  down (\<open>bar_row\<close>), the progress bar: the track of width 880, over it the fill of
  width \<open>w\<close> in the cycle colour when \<open>w\<close> exceeds 10, and the percentage.
\<close>

definition status_line :: "pil \<Rightarrow> color \<Rightarrow> pystr \<Rightarrow> int \<Rightarrow> canvas \<Rightarrow> canvas" where
  "status_line P cc st y1 img =
     (if TITLE_BAR_H \<le> y1 \<and> y1 \<le> H
      then draw_text P Font (PAD_X + 4 * CHAR_W P, y1) st DIM
             (draw_text P CjkFont (PAD_X + 2 * CHAR_W P, y1) (PROMPT_ICON @ ascii '' '') cc img)
      else img)"

definition progress_bar :: "pil \<Rightarrow> int \<Rightarrow> color \<Rightarrow> int \<Rightarrow> int \<Rightarrow> canvas \<Rightarrow> canvas" where
  "progress_bar P w cc pc y2 img =
     (let bar_x = PAD_X + 2 * CHAR_W P;
          bar_y = y2 + 28;
          track = rounded_rectangle P (bar_x, bar_y, bar_x + 880, bar_y + 36) 10 BAR_BG img;
          filled = (if 10 < w
                    then rounded_rectangle P (bar_x, bar_y, bar_x + w, bar_y + 36) 10 cc track
                    else track)
      in draw_text P SmallFont (bar_x + 912, y2) (py_str pc @ ascii ''%'') DIM filled)"

definition progress_frame ::
  "pil \<Rightarrow> parts list \<Rightarrow> real \<Rightarrow> int \<Rightarrow> color \<Rightarrow> pystr \<Rightarrow> int \<Rightarrow> canvas" where
  "progress_frame P lines off w cc st pc =
     (let base_y = TITLE_BAR_H + PAD_Y - py_int off;
          y1 = base_y + int (length lines) * LINE_H;
          y2 = y1 + LINE_H;
          content = draw_lines P None base_y 0 lines (\<lambda>_. BG)
      in draw_title_bar P
           (rectangle (0, 0, W, TITLE_BAR_H) TITLE_BG
              (progress_bar P w cc pc y2 (status_line P cc st y1 content))))"

definition bar_row :: "parts list \<Rightarrow> real \<Rightarrow> int" where
  "bar_row lines off = TITLE_BAR_H + PAD_Y - py_int off + (int (length lines) + 1) * LINE_H"



definition spinner_state :: timeline where
  "spinner_state = initial\<lparr>current_lines := replicate 10 [], scroll_y := 276\<rparr>"

section \<open>Truncation of non-negative numbers\<close>

lemma py_int_nonneg: "0 \<le> x \<Longrightarrow> py_int x = \<lfloor>x\<rfloor>"
  by (simp add: py_int_def)

section \<open>Properties of the scroll controller\<close>

lemma viewport_height: "H - TITLE_BAR_H - PAD_Y * 2 = 1904"
  by (simp add: H_def TITLE_BAR_H_def PAD_Y_def)

text \<open>
  C3. For every line buffer \<open>L\<close>, \<open>target_scroll L\<close> is
  \<open>max 0 (content_height L - viewport_height + 2 * LINE_H)\<close>, where the content height
  is \<open>len L * LINE_H\<close> and the viewport height is \<open>H - TITLE_BAR_H - 2 * PAD_Y\<close>;
  in particular the target is never negative.
\<close>

theorem target_scroll_contract:
  "target_scroll L = max 0 (content_bottom L - (H - TITLE_BAR_H - 2 * PAD_Y) + 2 * LINE_H)
   \<and> content_bottom L = int (length L) * LINE_H
   \<and> target_scroll L = max 0 (92 * int (length L) - 1720)
   \<and> 0 \<le> target_scroll L"
  by (simp add: target_scroll_def content_bottom_def Let_def
      H_def TITLE_BAR_H_def PAD_Y_def LINE_H_def)

section \<open>Properties of binary64 rounding\<close>

lemma rhe_int [simp]: "round_half_even (of_int k) = k"
  by (simp add: round_half_even_def)

lemma rhe_cases: "round_half_even y = \<lfloor>y\<rfloor> \<or> round_half_even y = \<lfloor>y\<rfloor> + 1"
  by (simp add: round_half_even_def Let_def)

lemma rhe_err: "\<bar>of_int (round_half_even y) - y\<bar> \<le> 1 / 2"
proof -
  have "of_int \<lfloor>y\<rfloor> \<le> y" "y < of_int \<lfloor>y\<rfloor> + 1" by linarith+
  then show ?thesis by (auto simp: round_half_even_def Let_def)
qed

lemma rhe_mono: assumes "y \<le> z" shows "round_half_even y \<le> round_half_even z"
proof (cases "\<lfloor>y\<rfloor> = \<lfloor>z\<rfloor>")
  case True
  with assms have "y - of_int \<lfloor>y\<rfloor> \<le> z - of_int \<lfloor>z\<rfloor>" by simp
  with True show ?thesis by (auto simp: round_half_even_def Let_def)
next
  case False
  with assms have "\<lfloor>y\<rfloor> + 1 \<le> \<lfloor>z\<rfloor>" using floor_mono [OF assms] by linarith
  moreover have "round_half_even y \<le> \<lfloor>y\<rfloor> + 1" using rhe_cases [of y] by linarith
  moreover have "\<lfloor>z\<rfloor> \<le> round_half_even z" using rhe_cases [of z] by linarith
  ultimately show ?thesis by linarith
qed

lemma rhe_neg: "round_half_even (- y) = - round_half_even y"
proof (cases "y = of_int \<lfloor>y\<rfloor>")
  case True
  then obtain k where "y = of_int k" ..
  then have "- y = of_int (- k)" by simp
  then show ?thesis unfolding \<open>y = of_int k\<close> by (simp only: rhe_int)
next
  case False
  then have lt: "of_int \<lfloor>y\<rfloor> < y" by linarith
  have ub: "y < of_int \<lfloor>y\<rfloor> + 1" by linarith
  have f: "\<lfloor>- y\<rfloor> = - \<lfloor>y\<rfloor> - 1"
  proof (rule floor_unique)
    have e: "real_of_int (- \<lfloor>y\<rfloor> - 1) = - real_of_int \<lfloor>y\<rfloor> - 1" by simp
    show "of_int (- \<lfloor>y\<rfloor> - 1) \<le> - y" unfolding e using ub by linarith
    show "- y < of_int (- \<lfloor>y\<rfloor> - 1) + 1" unfolding e using lt by linarith
  qed
  show ?thesis
    unfolding round_half_even_def Let_def f using lt by (auto simp: field_simps)
qed


lemma bexp_neg [simp]: "bexp (- x) = bexp x"
  by (simp add: bexp_def)

lemma bexp_ge: "- 1022 \<le> bexp x"
  by (simp add: bexp_def)

lemma bexp_upper: assumes "x \<noteq> 0" shows "\<bar>x\<bar> < 2 powr (of_int (bexp x) + 1)"
proof -
  have "\<bar>x\<bar> < 2 powr (of_int \<lfloor>log 2 \<bar>x\<bar>\<rfloor> + 1)"
    using floor_log_eq_powr_iff [of "\<bar>x\<bar>" 2 "\<lfloor>log 2 \<bar>x\<bar>\<rfloor>"] assms by simp
  also have "\<dots> \<le> 2 powr (of_int (bexp x) + 1)"
    by (simp add: bexp_def)
  finally show ?thesis .
qed

lemma bexp_eq:
  assumes "2 powr (of_int k) \<le> \<bar>x\<bar>" "\<bar>x\<bar> < 2 powr (of_int k + 1)" "- 1022 \<le> k"
  shows "bexp x = k"
proof -
  from assms(1) have "0 < \<bar>x\<bar>"
    using powr_gt_zero [of 2 "of_int k"] by linarith
  then have "\<lfloor>log 2 \<bar>x\<bar>\<rfloor> = k"
    using floor_log_eq_powr_iff [of "\<bar>x\<bar>" 2 k] assms by simp
  with assms(3) show ?thesis by (simp add: bexp_def)
qed

lemma bexp_lower:
  assumes "2 powr (- 1022) \<le> \<bar>x\<bar>"
  shows "2 powr (of_int (bexp x)) \<le> \<bar>x\<bar>"
proof -
  from assms have pos: "0 < \<bar>x\<bar>"
    using powr_gt_zero [of 2 "- 1022"] by linarith
  let ?b = "\<lfloor>log 2 \<bar>x\<bar>\<rfloor>"
  have b: "2 powr (of_int ?b) \<le> \<bar>x\<bar>" "\<bar>x\<bar> < 2 powr (of_int ?b + 1)"
    using floor_log_eq_powr_iff [of "\<bar>x\<bar>" 2 ?b] pos by simp_all
  have "- 1022 \<le> ?b"
  proof (rule ccontr)
    assume "\<not> - 1022 \<le> ?b"
    then have "of_int ?b + 1 \<le> (- 1022 :: real)" by linarith
    then have "2 powr (of_int ?b + 1) \<le> (2::real) powr (- 1022)" by (intro powr_mono) simp_all
    with b(2) assms show False by linarith
  qed
  then have "bexp x = ?b" by (simp add: bexp_def)
  with b(1) show ?thesis by simp
qed

lemma bexp_le:
  assumes "x \<noteq> 0" "\<bar>x\<bar> \<le> 2 powr (of_int k)" "- 1022 \<le> k"
  shows "bexp x \<le> k"
proof -
  let ?b = "\<lfloor>log 2 \<bar>x\<bar>\<rfloor>"
  have "log 2 \<bar>x\<bar> \<le> log 2 (2 powr (of_int k))"
    using assms by (intro log_mono) simp_all
  then have "log 2 \<bar>x\<bar> \<le> of_int k" by simp
  then have "?b \<le> k" by (simp add: floor_le_iff)
  with assms(3) show ?thesis by (simp add: bexp_def)
qed

lemma bexp_mono:
  assumes "x \<noteq> 0" "\<bar>x\<bar> \<le> \<bar>y\<bar>"
  shows "bexp x \<le> bexp y"
proof -
  have "log 2 \<bar>x\<bar> \<le> log 2 \<bar>y\<bar>" using assms by (intro log_mono) simp_all
  then have "\<lfloor>log 2 \<bar>x\<bar>\<rfloor> \<le> \<lfloor>log 2 \<bar>y\<bar>\<rfloor>" by (rule floor_mono)
  then show ?thesis by (simp add: bexp_def)
qed

lemma fl_zero [simp]: "fl 0 = 0"
  by (simp add: fl_def)

lemma fl_neg: "fl (- x) = - fl x"
  by (simp add: fl_def Let_def rhe_neg)

lemma fl_abs_err:
  assumes "x \<noteq> 0"
  shows "\<bar>fl x - x\<bar> \<le> 2 powr (of_int (bexp x) - 53)"
proof -
  define q :: real where "q = 2 powr (of_int (bexp x) - 52)"
  have q: "0 < q" by (simp add: q_def)
  have "fl x - x = (of_int (round_half_even (x / q)) - x / q) * q"
    using assms q by (simp add: fl_def Let_def q_def [symmetric] field_simps)
  then have "\<bar>fl x - x\<bar> = \<bar>of_int (round_half_even (x / q)) - x / q\<bar> * q"
    using q by (simp add: abs_mult)
  also have "\<dots> \<le> (1 / 2) * q"
    using rhe_err [of "x / q"] q by (intro mult_right_mono) simp_all
  also have "\<dots> = 2 powr (of_int (bexp x) - 53)"
  proof -
    have "2 powr (of_int (bexp x) - 52) = 2 powr (of_int (bexp x) - 53) * 2 powr (1::real)"
      by (simp only: powr_add [symmetric]) (simp add: algebra_simps)
    then show ?thesis by (simp add: q_def)
  qed
  finally show ?thesis .
qed

lemma fl_err_bound:
  assumes "\<bar>x\<bar> \<le> 2 powr (of_int k)" "- 1022 \<le> k"
  shows "\<bar>fl x - x\<bar> \<le> 2 powr (of_int k - 53)"
proof (cases "x = 0")
  case True
  then show ?thesis by simp
next
  case False
  from bexp_le [OF False assms] have "of_int (bexp x) - 53 \<le> (of_int k - 53 :: real)" by simp
  then have "2 powr (of_int (bexp x) - 53) \<le> (2::real) powr (of_int k - 53)"
    by (intro powr_mono) simp_all
  with fl_abs_err [OF False] show ?thesis by linarith
qed

lemma fl_rel_err:
  assumes "2 powr (- 1022) \<le> \<bar>x\<bar>"
  shows "\<bar>fl x - x\<bar> \<le> \<bar>x\<bar> * 2 powr (- 53)"
proof -
  from assms have nz: "x \<noteq> 0"
    using powr_gt_zero [of 2 "- 1022"] by auto
  have "2 powr (of_int (bexp x) - 53) = 2 powr (of_int (bexp x)) * 2 powr (- 53 :: real)"
    by (simp only: powr_add [symmetric]) (simp add: algebra_simps)
  also have "\<dots> \<le> \<bar>x\<bar> * 2 powr (- 53)"
    using bexp_lower [OF assms] by (intro mult_right_mono) simp_all
  finally show ?thesis using fl_abs_err [OF nz] by linarith
qed

lemma fl_nonneg: assumes "0 \<le> x" shows "0 \<le> fl x"
proof (cases "x = 0")
  case True
  then show ?thesis by simp
next
  case False
  define q :: real where "q = 2 powr (of_int (bexp x) - 52)"
  have q: "0 < q" by (simp add: q_def)
  have "round_half_even 0 \<le> round_half_even (x / q)"
    using assms q by (intro rhe_mono) simp
  then have "0 \<le> round_half_even (x / q)" using rhe_int [of 0] by simp
  then show ?thesis using False q by (simp add: fl_def Let_def q_def [symmetric])
qed

lemma fl_nonpos: "x \<le> 0 \<Longrightarrow> fl x \<le> 0"
  using fl_nonneg [of "- x"] by (simp add: fl_neg)

lemma fl_mono_pos:
  assumes "0 < x" "x \<le> y"
  shows "fl x \<le> fl y"
proof -
  define qx :: real where "qx = 2 powr (of_int (bexp x) - 52)"
  define qy :: real where "qy = 2 powr (of_int (bexp y) - 52)"
  have q: "0 < qx" "0 < qy" by (simp_all add: qx_def qy_def)
  from assms have nz: "x \<noteq> 0" "y \<noteq> 0" by simp_all
  have fx: "fl x = of_int (round_half_even (x / qx)) * qx"
    using nz by (simp add: fl_def Let_def qx_def)
  have fy: "fl y = of_int (round_half_even (y / qy)) * qy"
    using nz by (simp add: fl_def Let_def qy_def)
  have le: "bexp x \<le> bexp y" using assms by (intro bexp_mono) simp_all
  show ?thesis
  proof (cases "bexp x = bexp y")
    case True
    then have "qx = qy" by (simp add: qx_def qy_def)
    moreover have "round_half_even (x / qy) \<le> round_half_even (y / qy)"
      using assms q by (intro rhe_mono divide_right_mono) simp_all
    ultimately show ?thesis unfolding fx fy using q by (simp add: mult_right_mono)
  next
    case False
    with le have lt: "bexp x + 1 \<le> bexp y" by simp
    have gy: "- 1022 < bexp y" using lt bexp_ge [of x] by linarith
    then have by_eq: "bexp y = \<lfloor>log 2 \<bar>y\<bar>\<rfloor>" by (simp add: bexp_def max_def split: if_splits)
    have ylow: "2 powr (of_int (bexp y)) \<le> y"
      using floor_log_eq_powr_iff [of "\<bar>y\<bar>" 2 "\<lfloor>log 2 \<bar>y\<bar>\<rfloor>"] assms by_eq by simp
    have xup: "x < 2 powr (of_int (bexp x) + 1)" using bexp_upper [OF nz(1)] assms by simp
    \<comment> \<open>fl x \<le> 2 powr (bexp x + 1)\<close>
    have "x / qx \<le> 2 powr 53"
    proof -
      have "2 powr (of_int (bexp x) + 1) = qx * 2 powr (53::real)"
        unfolding qx_def by (simp only: powr_add [symmetric]) (simp add: algebra_simps)
      with xup q show ?thesis by (simp add: field_simps)
    qed
    then have "x / qx \<le> of_int (2 ^ 53)" by simp
    then have "round_half_even (x / qx) \<le> round_half_even (of_int (2 ^ 53))" by (rule rhe_mono)
    then have "round_half_even (x / qx) \<le> 2 ^ 53" by (simp only: rhe_int)
    then have "real_of_int (round_half_even (x / qx)) \<le> 2 ^ 53"
      by (metis of_int_le_iff of_int_numeral of_int_power)
    then have "fl x \<le> 2 ^ 53 * qx" unfolding fx using q by (simp add: mult_right_mono)
    also have "\<dots> = 2 powr (of_int (bexp x) + 1)"
    proof -
      have "2 powr (of_int (bexp x) + 1) = qx * 2 powr (53::real)"
        unfolding qx_def by (simp only: powr_add [symmetric]) (simp add: algebra_simps)
      then show ?thesis by simp
    qed
    also have "\<dots> \<le> 2 powr (of_int (bexp y))"
    proof (rule powr_mono)
      from lt have "real_of_int (bexp x + 1) \<le> real_of_int (bexp y)" by (simp only: of_int_le_iff)
      then show "real_of_int (bexp x) + 1 \<le> real_of_int (bexp y)" by simp
    qed simp
    finally have A: "fl x \<le> 2 powr (of_int (bexp y))" .
    \<comment> \<open>2 powr (bexp y) \<le> fl y\<close>
    have qy52: "2 powr (of_int (bexp y)) = qy * 2 powr (52::real)"
      unfolding qy_def by (simp only: powr_add [symmetric]) (simp add: algebra_simps)
    with ylow q have "2 powr 52 \<le> y / qy" by (simp add: field_simps)
    then have "of_int (2 ^ 52) \<le> y / qy" by simp
    then have "round_half_even (of_int (2 ^ 52)) \<le> round_half_even (y / qy)" by (rule rhe_mono)
    then have "2 ^ 52 \<le> round_half_even (y / qy)" by (simp only: rhe_int)
    then have "2 ^ 52 \<le> real_of_int (round_half_even (y / qy))"
      by (metis of_int_le_iff of_int_numeral of_int_power)
    then have "2 ^ 52 * qy \<le> fl y" unfolding fy using q by (simp add: mult_right_mono)
    with qy52 have B: "2 powr (of_int (bexp y)) \<le> fl y" by simp
    from A B show ?thesis by linarith
  qed
qed

lemma fl_mono: assumes "x \<le> y" shows "fl x \<le> fl y"
proof -
  consider "0 < x" | "x \<le> 0" "0 \<le> y" | "y < 0" by linarith
  then show ?thesis
  proof cases
    case 1
    then show ?thesis using assms by (rule fl_mono_pos)
  next
    case 2
    then show ?thesis using fl_nonpos [of x] fl_nonneg [of y] by linarith
  next
    case 3
    then have "fl (- y) \<le> fl (- x)" using assms by (intro fl_mono_pos) simp_all
    then show ?thesis by (simp add: fl_neg)
  qed
qed

lemma fl_eval:
  assumes "2 powr (of_int k) \<le> \<bar>x\<bar>" "\<bar>x\<bar> < 2 powr (of_int k + 1)" "- 1022 \<le> k"
  shows "fl x = of_int (round_half_even (x / 2 powr (of_int k - 52))) * 2 powr (of_int k - 52)"
proof -
  from assms(1) have "x \<noteq> 0"
    using powr_gt_zero [of 2 "of_int k"] by auto
  then show ?thesis by (simp add: fl_def Let_def bexp_eq [OF assms])
qed

lemma rhe_eval:
  "of_int f \<le> y \<Longrightarrow> y < of_int f + 1 / 2 \<Longrightarrow> round_half_even y = f"
  "of_int f + 1 / 2 < y \<Longrightarrow> y < of_int f + 1 \<Longrightarrow> round_half_even y = f + 1"
proof -
  assume a: "of_int f \<le> y" "y < of_int f + 1 / 2"
  then have "\<lfloor>y\<rfloor> = f" by (intro floor_unique) simp_all
  with a show "round_half_even y = f" by (simp add: round_half_even_def Let_def)
next
  assume a: "of_int f + 1 / 2 < y" "y < of_int f + 1"
  then have "\<lfloor>y\<rfloor> = f" by (intro floor_unique) simp_all
  with a show "round_half_even y = f + 1" by (simp add: round_half_even_def Let_def)
qed

lemma two_powr_nat: "(2::real) powr (of_int (int n)) = 2 ^ n"
  by (simp add: powr_realpow)

lemma two_powr_neg_nat: "(2::real) powr (- real n) = 1 / 2 ^ n"
  by (simp add: powr_minus powr_realpow divide_inverse)

lemma fl_eval_small:
  assumes "1 / 2 ^ n \<le> \<bar>x\<bar>" "\<bar>x\<bar> < 2 / 2 ^ n" "n \<le> 1022"
  shows "fl x = of_int (round_half_even (x * 2 ^ (n + 52))) / 2 ^ (n + 52)"
proof -
  have n: "real_of_int (- int n) = - real n" by simp
  have a: "(2::real) powr (of_int (- int n)) = 1 / 2 ^ n"
    unfolding n by (rule two_powr_neg_nat)
  have "(2::real) powr (of_int (- int n) + 1) = 2 powr (of_int (- int n)) * 2 powr 1"
    by (rule powr_add)
  then have b: "(2::real) powr (of_int (- int n) + 1) = 2 / 2 ^ n"
    unfolding a by simp
  have "real_of_int (- int n) - 52 = - real (n + 52)" by simp
  then have c: "(2::real) powr (of_int (- int n) - 52) = 1 / 2 ^ (n + 52)"
    by (simp only: two_powr_neg_nat)
  have "fl x = of_int (round_half_even (x / 2 powr (of_int (- int n) - 52)))
                * 2 powr (of_int (- int n) - 52)"
  proof (rule fl_eval)
    show "2 powr (of_int (- int n)) \<le> \<bar>x\<bar>" unfolding a by (rule assms(1))
    show "\<bar>x\<bar> < 2 powr (of_int (- int n) + 1)" unfolding b by (rule assms(2))
    show "- 1022 \<le> - int n" using assms(3) by simp
  qed
  then show ?thesis unfolding c by simp
qed

lemma fl_eval_mid:
  assumes "2 ^ k \<le> \<bar>x\<bar>" "\<bar>x\<bar> < 2 * 2 ^ k" "k \<le> 52"
  shows "fl x = of_int (round_half_even (x * 2 ^ (52 - k))) / 2 ^ (52 - k)"
proof -
  have a: "(2::real) powr (of_int (int k)) = 2 ^ k" by (rule two_powr_nat)
  have "(2::real) powr (of_int (int k) + 1) = 2 powr (of_int (int k)) * 2 powr 1"
    by (rule powr_add)
  then have b: "(2::real) powr (of_int (int k) + 1) = 2 * 2 ^ k"
    unfolding a by simp
  have "real_of_int (int k) - 52 = - real (52 - k)" using assms(3) by (simp add: of_nat_diff)
  then have c: "(2::real) powr (of_int (int k) - 52) = 1 / 2 ^ (52 - k)"
    by (simp only: two_powr_neg_nat)
  have "fl x = of_int (round_half_even (x / 2 powr (of_int (int k) - 52)))
                * 2 powr (of_int (int k) - 52)"
  proof (rule fl_eval)
    show "2 powr (of_int (int k)) \<le> \<bar>x\<bar>" unfolding a by (rule assms(1))
    show "\<bar>x\<bar> < 2 powr (of_int (int k) + 1)" unfolding b by (rule assms(2))
    show "- 1022 \<le> int k" by simp
  qed
  then show ?thesis unfolding c by simp
qed

lemma fl_eval_big:
  assumes "2 ^ k \<le> \<bar>x\<bar>" "\<bar>x\<bar> < 2 * 2 ^ k" "52 \<le> k"
  shows "fl x = of_int (round_half_even (x / 2 ^ (k - 52))) * 2 ^ (k - 52)"
proof -
  have a: "(2::real) powr (of_int (int k)) = 2 ^ k" by (rule two_powr_nat)
  have "(2::real) powr (of_int (int k) + 1) = 2 powr (of_int (int k)) * 2 powr 1"
    by (rule powr_add)
  then have b: "(2::real) powr (of_int (int k) + 1) = 2 * 2 ^ k"
    unfolding a by simp
  have "real_of_int (int k) - 52 = real_of_int (int (k - 52))" using assms(3) by (simp add: of_nat_diff)
  then have c: "(2::real) powr (of_int (int k) - 52) = 2 ^ (k - 52)"
    by (simp only: two_powr_nat)
  have "fl x = of_int (round_half_even (x / 2 powr (of_int (int k) - 52)))
                * 2 powr (of_int (int k) - 52)"
  proof (rule fl_eval)
    show "2 powr (of_int (int k)) \<le> \<bar>x\<bar>" unfolding a by (rule assms(1))
    show "\<bar>x\<bar> < 2 powr (of_int (int k) + 1)" unfolding b by (rule assms(2))
    show "- 1022 \<le> int k" by simp
  qed
  then show ?thesis unfolding c by simp
qed

lemma SCROLL_SPEED_val: "SCROLL_SPEED = 5404319552844595 / 2 ^ 55"
proof -
  have r: "round_half_even (15 / 100 * 2 ^ 55) = 5404319552844595"
    by (rule rhe_eval(1)) simp_all
  have "fl (15 / 100) = of_int (round_half_even (15 / 100 * 2 ^ (3 + 52))) / 2 ^ (3 + 52)"
    by (rule fl_eval_small) simp_all
  with r show ?thesis by (simp add: SCROLL_SPEED_def)
qed

lemma fl_int: assumes "\<bar>m\<bar> \<le> 2 ^ 53" shows "fl (of_int m) = of_int m"
proof (cases "m = 0")
  case True
  then show ?thesis by simp
next
  case False
  define x :: real where "x = of_int m"
  have nz: "x \<noteq> 0" using False by (simp add: x_def)
  define q :: real where "q = 2 powr (of_int (bexp x) - 52)"
  have "\<bar>x\<bar> \<le> 2 powr (of_int 53)"
  proof -
    from assms have "real_of_int \<bar>m\<bar> \<le> real_of_int (2 ^ 53)" by (simp only: of_int_le_iff)
    then show ?thesis by (simp add: x_def)
  qed
  then have le: "bexp x \<le> 53" using nz by (intro bexp_le) simp_all
  have "\<exists>j. x / q = of_int j"
  proof (cases "bexp x \<le> 52")
    case True
    then obtain n where n: "52 - bexp x = int n" using nonneg_int_cases [of "52 - bexp x"] by auto
    then have "real_of_int (bexp x) - 52 = - real n" by linarith
    then have "q = 1 / 2 ^ n" by (simp add: q_def two_powr_neg_nat)
    then have "x / q = of_int (m * 2 ^ n)" by (simp add: x_def)
    then show ?thesis ..
  next
    case False
    with le have b: "bexp x = 53" by simp
    have "1 \<le> \<bar>m\<bar>" using \<open>m \<noteq> 0\<close> by simp
    then have "real_of_int 1 \<le> real_of_int \<bar>m\<bar>" by (simp only: of_int_le_iff)
    then have "1 \<le> \<bar>x\<bar>" by (simp add: x_def)
    moreover have "(2::real) powr (- 1022) \<le> 2 powr 0" by (intro powr_mono) simp_all
    ultimately have "2 powr (- 1022) \<le> \<bar>x\<bar>" by simp
    from bexp_lower [OF this] b have "2 powr 53 \<le> \<bar>x\<bar>" by simp
    with \<open>\<bar>x\<bar> \<le> 2 powr (of_int 53)\<close> have "\<bar>x\<bar> = 2 ^ 53" by simp
    moreover have "q = 2" by (simp add: q_def b)
    ultimately have "x / q = of_int (2 ^ 52) \<or> x / q = of_int (- (2 ^ 52))"
      by (cases "0 \<le> x") simp_all
    then show ?thesis by blast
  qed
  then obtain j where j: "x / q = of_int j" ..
  have qpos: "0 < q" by (simp add: q_def)
  have "fl x = of_int (round_half_even (x / q)) * q"
    using nz by (simp add: fl_def Let_def q_def)
  also have "\<dots> = (x / q) * q" unfolding j by (simp only: rhe_int)
  also have "\<dots> = x" using qpos by simp
  finally show ?thesis by (simp add: x_def)
qed

lemma fl_err_nat:
  assumes "\<bar>x\<bar> \<le> 2 ^ k" "k \<le> 53"
  shows "\<bar>fl x - x\<bar> \<le> 1 / 2 ^ (53 - k)"
proof -
  have a: "(2::real) powr (of_int (int k)) = 2 ^ k" by (rule two_powr_nat)
  have "real_of_int (int k) - 53 = - real (53 - k)" using assms(2) by (simp add: of_nat_diff)
  then have c: "(2::real) powr (of_int (int k) - 53) = 1 / 2 ^ (53 - k)"
    by (simp only: two_powr_neg_nat)
  have "\<bar>fl x - x\<bar> \<le> 2 powr (of_int (int k) - 53)"
  proof (rule fl_err_bound)
    show "\<bar>x\<bar> \<le> 2 powr (of_int (int k))" unfolding a by (rule assms(1))
    show "- 1022 \<le> int k" by simp
  qed
  then show ?thesis unfolding c .
qed

lemma SCROLL_SPEED_bounds: "149 / 1000 < SCROLL_SPEED" "SCROLL_SPEED < 15 / 100"
  unfolding SCROLL_SPEED_val by simp_all

section \<open>Convergence of the scroll controller\<close>

lemma smooth_scroll_near: "\<bar>fl (target - current)\<bar> < 1 \<Longrightarrow> smooth_scroll current target = target"
  by (simp add: smooth_scroll_def Let_def)

lemma smooth_scroll_same [simp]: "smooth_scroll target target = target"
  by (simp add: smooth_scroll_def)

lemma smooth_scroll_close:
  assumes "\<bar>target - current\<bar> \<le> 99 / 100"
  shows "smooth_scroll current target = target"
proof -
  from assms have "\<bar>target - current\<bar> \<le> 2 ^ 0" by simp
  from fl_err_nat [OF this] have "\<bar>fl (target - current) - (target - current)\<bar> \<le> 1 / 2 ^ 53"
    by simp
  moreover have "(1::real) / 2 ^ 53 \<le> 1 / 1000" by simp
  ultimately have "\<bar>fl (target - current) - (target - current)\<bar> \<le> 1 / 1000" by (rule order_trans)
  with assms have "\<bar>fl (target - current)\<bar> < 1" by linarith
  then show ?thesis by (rule smooth_scroll_near)
qed

lemma smooth_scroll_far:
  assumes t: "\<bar>target\<bar> \<le> 2 ^ 40" and g: "\<bar>target - current\<bar> \<le> 2 ^ 41"
    and far: "1 \<le> \<bar>fl (target - current)\<bar>"
  shows "\<bar>(target - smooth_scroll current target) - (target - current) * (1 - SCROLL_SPEED)\<bar>
           \<le> 1 / 1024"
    and "99 / 100 \<le> \<bar>target - current\<bar>"
    and "\<bar>target - smooth_scroll current target\<bar> \<le> 86 / 100 * \<bar>target - current\<bar>"
proof -
  define gap where "gap = target - current"
  define d where "d = fl gap"
  define p where "p = fl (d * SCROLL_SPEED)"
  define c' where "c' = fl (current + p)"
  have ss: "smooth_scroll current target = c'"
    using far by (simp add: smooth_scroll_def Let_def c'_def p_def d_def gap_def)
  have t': "\<bar>target\<bar> \<le> 1099511627776" using t by simp
  have g': "\<bar>gap\<bar> \<le> 2199023255552" using g by (simp add: gap_def)
  have S: "0 \<le> SCROLL_SPEED" "SCROLL_SPEED \<le> 15 / 100" "149 / 1000 \<le> SCROLL_SPEED"
    using SCROLL_SPEED_bounds by simp_all
  have e1: "\<bar>d - gap\<bar> \<le> 1 / 4096"
  proof -
    have "\<bar>fl gap - gap\<bar> \<le> 1 / 2 ^ (53 - 41)"
      by (rule fl_err_nat) (use g in \<open>simp_all add: gap_def\<close>)
    also have "\<dots> = 1 / 4096" by simp
    finally show ?thesis by (simp only: d_def)
  qed
  have d': "\<bar>d\<bar> \<le> 2199023255553" using e1 g' by linarith
  have dS': "\<bar>d * SCROLL_SPEED\<bar> \<le> 549755813888"
  proof -
    have "\<bar>d * SCROLL_SPEED\<bar> = \<bar>d\<bar> * SCROLL_SPEED"
      using S by (simp add: abs_mult)
    also have "\<dots> \<le> 2199023255553 * (15 / 100)"
      using S d' by (intro mult_mono) simp_all
    also have "\<dots> \<le> 549755813888" by simp
    finally show ?thesis .
  qed
  have e2: "\<bar>p - d * SCROLL_SPEED\<bar> \<le> 1 / 16384"
  proof -
    have "\<bar>fl (d * SCROLL_SPEED) - d * SCROLL_SPEED\<bar> \<le> 1 / 2 ^ (53 - 39)"
      by (rule fl_err_nat) (use dS' in simp_all)
    also have "\<dots> = 1 / 16384" by simp
    finally show ?thesis by (simp only: p_def)
  qed
  have cp: "\<bar>current + p\<bar> \<le> 4398046511104"
  proof -
    have "\<bar>current\<bar> \<le> \<bar>target\<bar> + \<bar>gap\<bar>" unfolding gap_def by linarith
    moreover have "\<bar>p\<bar> \<le> 549755813889" using e2 dS' by linarith
    ultimately show ?thesis using t' g' by linarith
  qed
  have e3: "\<bar>c' - (current + p)\<bar> \<le> 1 / 2048"
  proof -
    have "\<bar>fl (current + p) - (current + p)\<bar> \<le> 1 / 2 ^ (53 - 42)"
      by (rule fl_err_nat) (use cp in simp_all)
    also have "\<dots> = 1 / 2048" by simp
    finally show ?thesis by (simp only: c'_def)
  qed
  have split: "(target - c') - gap * (1 - SCROLL_SPEED)
      = - (c' - (current + p)) - (p - d * SCROLL_SPEED) - (d - gap) * SCROLL_SPEED"
    by (simp add: gap_def algebra_simps)
  have e1S: "\<bar>(d - gap) * SCROLL_SPEED\<bar> \<le> 1 / 4096"
  proof -
    have "\<bar>(d - gap) * SCROLL_SPEED\<bar> = \<bar>d - gap\<bar> * SCROLL_SPEED"
      using S by (simp add: abs_mult)
    also have "\<dots> \<le> (1 / 4096) * 1"
      using S e1 by (intro mult_mono) simp_all
    finally show ?thesis by simp
  qed
  have err: "\<bar>(target - c') - gap * (1 - SCROLL_SPEED)\<bar> \<le> 1 / 1024"
    unfolding split using e1S e2 e3 by linarith
  then show "\<bar>(target - smooth_scroll current target) - (target - current) * (1 - SCROLL_SPEED)\<bar>
           \<le> 1 / 1024"
    unfolding ss gap_def .
  have "1 \<le> \<bar>d\<bar>" using far by (simp only: d_def gap_def)
  with e1 have gl: "99 / 100 \<le> \<bar>gap\<bar>" by linarith
  then show "99 / 100 \<le> \<bar>target - current\<bar>" by (simp only: gap_def)
  have "\<bar>gap * (1 - SCROLL_SPEED)\<bar> = \<bar>gap\<bar> * (1 - SCROLL_SPEED)"
    using S by (simp add: abs_mult)
  moreover have "\<bar>gap\<bar> * (1 - SCROLL_SPEED) \<le> \<bar>gap\<bar> * (851 / 1000)"
    using S by (intro mult_left_mono) simp_all
  ultimately have "\<bar>target - c'\<bar> \<le> \<bar>gap\<bar> * (851 / 1000) + 1 / 1024"
    using err by linarith
  with gl have "\<bar>target - c'\<bar> \<le> 86 / 100 * \<bar>gap\<bar>" by linarith
  then show "\<bar>target - smooth_scroll current target\<bar> \<le> 86 / 100 * \<bar>target - current\<bar>"
    unfolding ss gap_def .
qed

lemma scroll_iter_Suc:
  "scroll_iter (Suc k) current target = smooth_scroll (scroll_iter k current target) target"
  by (simp add: scroll_iter_def)

lemma scroll_iter_fixed:
  "scroll_iter k current target = target \<Longrightarrow> k \<le> j \<Longrightarrow> scroll_iter j current target = target"
proof (induction j)
  case 0
  then show ?case by simp
next
  case (Suc j)
  show ?case
  proof (cases "k \<le> j")
    case True
    with Suc have "scroll_iter j current target = target" by simp
    then show ?thesis by (simp add: scroll_iter_Suc)
  next
    case False
    with Suc.prems have "k = Suc j" by simp
    with Suc.prems show ?thesis by simp
  qed
qed

lemma scroll_iter_gap:
  assumes t: "\<bar>target\<bar> \<le> 2 ^ 40" and c: "\<bar>current\<bar> \<le> 2 ^ 40"
  shows "scroll_iter n current target = target
   \<or> \<bar>target - scroll_iter n current target\<bar> \<le> \<bar>target - current\<bar> * (86 / 100) ^ n"
proof (induction n)
  case 0
  then show ?case by (simp add: scroll_iter_def)
next
  case (Suc n)
  let ?c = "scroll_iter n current target"
  from Suc show ?case
  proof
    assume "?c = target"
    then show ?thesis by (simp add: scroll_iter_Suc)
  next
    assume gap: "\<bar>target - ?c\<bar> \<le> \<bar>target - current\<bar> * (86 / 100) ^ n"
    have "\<bar>target - current\<bar> * (86 / 100) ^ n \<le> \<bar>target - current\<bar> * 1"
      by (intro mult_left_mono power_le_one) simp_all
    with gap have "\<bar>target - ?c\<bar> \<le> \<bar>target - current\<bar>" by simp
    also have "\<dots> \<le> \<bar>target\<bar> + \<bar>current\<bar>" by linarith
    also have "\<dots> \<le> 2 ^ 40 + 2 ^ 40" using t c by (rule add_mono)
    also have "\<dots> = 2 ^ 41" by simp
    finally have g41: "\<bar>target - ?c\<bar> \<le> 2 ^ 41" .
    show ?thesis
    proof (cases "\<bar>fl (target - ?c)\<bar> < 1")
      case True
      then show ?thesis by (simp add: scroll_iter_Suc smooth_scroll_near)
    next
      case False
      then have "1 \<le> \<bar>fl (target - ?c)\<bar>" by simp
      from smooth_scroll_far(3) [OF t g41 this]
      have "\<bar>target - smooth_scroll ?c target\<bar> \<le> 86 / 100 * \<bar>target - ?c\<bar>" .
      also have "\<dots> \<le> 86 / 100 * (\<bar>target - current\<bar> * (86 / 100) ^ n)"
        using gap by simp
      finally show ?thesis by (simp add: scroll_iter_Suc)
    qed
  qed
qed

lemma scroll_iter_reaches:
  assumes t: "\<bar>target\<bar> \<le> 2 ^ 40" and c: "\<bar>current\<bar> \<le> 2 ^ 40"
    and n: "\<bar>target - current\<bar> * (86 / 100) ^ n \<le> 99 / 100"
  shows "scroll_iter (Suc n) current target = target"
proof -
  let ?c = "scroll_iter n current target"
  from scroll_iter_gap [OF t c, of n] n have "?c = target \<or> \<bar>target - ?c\<bar> \<le> 99 / 100"
    by linarith
  then show ?thesis by (auto simp: scroll_iter_Suc smooth_scroll_close)
qed

lemma scroll_iter_bound_exists:
  "\<exists>n. \<bar>target - current\<bar> * (86 / 100) ^ n \<le> 99 / (100::real)"
proof -
  have "(\<lambda>n. \<bar>target - current\<bar> * (86 / 100) ^ n) \<longlonglongrightarrow> \<bar>target - current\<bar> * 0"
    by (intro tendsto_mult_left LIMSEQ_realpow_zero) simp_all
  then have "eventually (\<lambda>n. \<bar>target - current\<bar> * (86 / 100) ^ n < 99 / 100) sequentially"
    by (rule order_tendstoD) simp
  then obtain n where "\<bar>target - current\<bar> * (86 / 100) ^ n < 99 / 100"
    by (auto simp: eventually_sequentially)
  then have "\<bar>target - current\<bar> * (86 / 100) ^ n \<le> 99 / 100" by simp
  then show ?thesis ..
qed

lemma smooth_scroll_neg: "smooth_scroll (- current) (- target) = - smooth_scroll current target"
proof -
  have a: "- target - - current = - (target - current)" by simp
  have b: "- current + - y = - (current + y)" for y :: real by simp
  show ?thesis
    unfolding smooth_scroll_def Let_def a fl_neg abs_minus_cancel mult_minus_left b
    by simp
qed

lemma two_powr_m53: "(2::real) powr (- 53) \<le> 1 / 1000"
proof -
  have "(2::real) powr (- real 53) = 1 / 2 ^ 53" by (rule two_powr_neg_nat)
  then show ?thesis by simp
qed

lemma two_powr_m1022: "(2::real) powr (- 1022) \<le> 1 / 10"
proof -
  have "(2::real) powr (- 1022) \<le> 2 powr (- real 4)" by (intro powr_mono) simp_all
  also have "\<dots> = 1 / 2 ^ 4" by (rule two_powr_neg_nat)
  also have "\<dots> \<le> 1 / 10" by simp
  finally show ?thesis .
qed

lemma fl_rel_err':
  assumes "1 / 10 \<le> \<bar>x\<bar>"
  shows "\<bar>fl x - x\<bar> \<le> \<bar>x\<bar> / 1000"
proof -
  from assms two_powr_m1022 have "2 powr (- 1022) \<le> \<bar>x\<bar>" by linarith
  from fl_rel_err [OF this] have "\<bar>fl x - x\<bar> \<le> \<bar>x\<bar> * 2 powr (- 53)" .
  also have "\<dots> \<le> \<bar>x\<bar> * (1 / 1000)"
    using two_powr_m53 by (intro mult_left_mono) simp_all
  finally show ?thesis by simp
qed

lemma smooth_scroll_between_up:
  assumes le: "current \<le> target" and c: "fl current = current" and t: "fl target = target"
  shows "current \<le> smooth_scroll current target \<and> smooth_scroll current target \<le> target"
proof (cases "\<bar>fl (target - current)\<bar> < 1")
  case True
  then have "smooth_scroll current target = target" by (rule smooth_scroll_near)
  with le show ?thesis by simp
next
  case False
  define gap where "gap = target - current"
  define d where "d = fl gap"
  define u where "u = d * SCROLL_SPEED"
  define p where "p = fl u"
  have ss: "smooth_scroll current target = fl (current + p)"
    using False by (simp add: smooth_scroll_def Let_def p_def u_def d_def gap_def)
  have S: "0 \<le> SCROLL_SPEED" "SCROLL_SPEED \<le> 15 / 100" "149 / 1000 \<le> SCROLL_SPEED"
    using SCROLL_SPEED_bounds by simp_all
  have g0: "0 \<le> gap" using le by (simp add: gap_def)
  then have "0 \<le> d" unfolding d_def by (rule fl_nonneg)
  with False have d1: "1 \<le> d" by (simp add: d_def gap_def)
  have gh: "1 / 2 \<le> gap"
  proof (rule ccontr)
    assume "\<not> 1 / 2 \<le> gap"
    with g0 have "\<bar>gap\<bar> \<le> 2 ^ 0" by simp
    from fl_err_nat [OF this] have "\<bar>d - gap\<bar> \<le> 1 / 2 ^ 53" by (simp add: d_def)
    moreover have "(1::real) / 2 ^ 53 \<le> 1 / 1000" by simp
    ultimately have "\<bar>d - gap\<bar> \<le> 1 / 1000" by (rule order_trans)
    with \<open>\<not> 1 / 2 \<le> gap\<close> d1 show False by linarith
  qed
  then have "\<bar>fl gap - gap\<bar> \<le> \<bar>gap\<bar> / 1000" by (intro fl_rel_err') simp
  with g0 have dg: "d \<le> gap + gap / 1000" unfolding d_def by linarith
  have u0: "0 \<le> u" unfolding u_def using \<open>0 \<le> d\<close> S by simp
  have ul: "149 / 1000 \<le> u"
  proof -
    have "1 * (149 / 1000) \<le> d * SCROLL_SPEED" using d1 S by (intro mult_mono) simp_all
    then show ?thesis by (simp add: u_def)
  qed
  have uu: "u \<le> d * (15 / 100)" unfolding u_def using \<open>0 \<le> d\<close> S by (intro mult_left_mono) simp_all
  have "\<bar>fl u - u\<bar> \<le> \<bar>u\<bar> / 1000" using ul by (intro fl_rel_err') simp
  with u0 have pu: "p \<le> u + u / 1000" unfolding p_def by linarith
  have p0: "0 \<le> p" unfolding p_def using u0 by (rule fl_nonneg)
  from pu uu dg g0 have "p \<le> gap" by linarith
  then have "current + p \<le> target" by (simp add: gap_def)
  then have "fl (current + p) \<le> fl target" by (rule fl_mono)
  moreover have "fl current \<le> fl (current + p)" using p0 by (intro fl_mono) simp
  ultimately show ?thesis unfolding ss using c t by simp
qed

lemma smooth_scroll_between:
  assumes c: "fl current = current" and t: "fl target = target"
  shows "min current target \<le> smooth_scroll current target"
    and "smooth_scroll current target \<le> max current target"
proof -
  have "min current target \<le> smooth_scroll current target
        \<and> smooth_scroll current target \<le> max current target"
  proof (cases "current \<le> target")
    case True
    from smooth_scroll_between_up [OF True c t] True show ?thesis by simp
  next
    case False
    then have le: "- current \<le> - target" by simp
    have "fl (- current) = - current" "fl (- target) = - target"
      using c t by (simp_all add: fl_neg)
    from smooth_scroll_between_up [OF le this] False show ?thesis
      by (simp add: smooth_scroll_neg)
  qed
  then show "min current target \<le> smooth_scroll current target"
    and "smooth_scroll current target \<le> max current target" by simp_all
qed

lemma fl_2: "fl 2 = 2"
  using fl_int [of 2] by simp

lemma fl_2S: "fl (2 * SCROLL_SPEED) = 2 * SCROLL_SPEED"
proof -
  have "fl (2 * SCROLL_SPEED)
      = of_int (round_half_even (2 * SCROLL_SPEED * 2 ^ (2 + 52))) / 2 ^ (2 + 52)"
    by (rule fl_eval_small) (simp_all add: SCROLL_SPEED_val)
  moreover have "2 * SCROLL_SPEED * 2 ^ (2 + 52) = of_int 5404319552844595"
    by (simp add: SCROLL_SPEED_val)
  ultimately have "fl (2 * SCROLL_SPEED) = of_int 5404319552844595 / 2 ^ (2 + 52)"
    by (simp only: rhe_int)
  then show ?thesis by (simp add: SCROLL_SPEED_val)
qed

lemma fl_big: "fl (10 ^ 16 + 2 * SCROLL_SPEED) = 10 ^ 16"
proof -
  have "fl (10 ^ 16 + 2 * SCROLL_SPEED)
      = of_int (round_half_even ((10 ^ 16 + 2 * SCROLL_SPEED) / 2 ^ (53 - 52))) * 2 ^ (53 - 52)"
    by (rule fl_eval_big) (simp_all add: SCROLL_SPEED_val)
  moreover have "round_half_even ((10 ^ 16 + 2 * SCROLL_SPEED) / 2 ^ (53 - 52)) = 5000000000000000"
    by (rule rhe_eval(1)) (simp_all add: SCROLL_SPEED_val)
  ultimately show ?thesis by simp
qed

lemma smooth_scroll_stuck: "smooth_scroll (10 ^ 16) (10 ^ 16 + 2) = 10 ^ 16"
proof -
  have "((10 ^ 16 + 2) - 10 ^ 16 :: real) = 2" by simp
  then have d: "fl ((10 ^ 16 + 2) - 10 ^ 16) = 2" by (simp only: fl_2)
  have n: "\<not> \<bar>2::real\<bar> < 1" by simp
  show ?thesis
    unfolding smooth_scroll_def Let_def d by (simp only: n if_False fl_2S fl_big)
qed

lemma scroll_iter_stuck:
  "smooth_scroll current target = current \<Longrightarrow> scroll_iter k current target = current"
  by (induction k) (simp_all add: scroll_iter_def)

lemma fl_near_one: "fl (1 - 1 / 2 ^ 60) = 1"
proof -
  have "fl (1 - 1 / 2 ^ 60)
      = of_int (round_half_even ((1 - 1 / 2 ^ 60) * 2 ^ (1 + 52))) / 2 ^ (1 + 52)"
    by (rule fl_eval_small) simp_all
  moreover have "round_half_even ((1 - 1 / 2 ^ 60) * 2 ^ (1 + 52)) = (2 ^ 53 - 1) + 1"
    by (rule rhe_eval(2)) simp_all
  ultimately show ?thesis by simp
qed

lemma fl_S: "fl SCROLL_SPEED = SCROLL_SPEED"
proof -
  have "fl SCROLL_SPEED
      = of_int (round_half_even (SCROLL_SPEED * 2 ^ (3 + 52))) / 2 ^ (3 + 52)"
    by (rule fl_eval_small) (simp_all add: SCROLL_SPEED_val)
  moreover have "SCROLL_SPEED * 2 ^ (3 + 52) = of_int 5404319552844595"
    by (simp add: SCROLL_SPEED_val)
  ultimately have "fl SCROLL_SPEED = of_int 5404319552844595 / 2 ^ (3 + 52)"
    by (simp only: rhe_int)
  then show ?thesis by (simp add: SCROLL_SPEED_val)
qed

lemma fl_tiny_plus_S: "fl (1 / 2 ^ 60 + SCROLL_SPEED) = SCROLL_SPEED"
proof -
  have "fl (1 / 2 ^ 60 + SCROLL_SPEED)
      = of_int (round_half_even ((1 / 2 ^ 60 + SCROLL_SPEED) * 2 ^ (3 + 52))) / 2 ^ (3 + 52)"
    by (rule fl_eval_small) (simp_all add: SCROLL_SPEED_val)
  moreover have "round_half_even ((1 / 2 ^ 60 + SCROLL_SPEED) * 2 ^ (3 + 52)) = 5404319552844595"
    by (rule rhe_eval(1)) (simp_all add: SCROLL_SPEED_val)
  ultimately show ?thesis by (simp add: SCROLL_SPEED_val)
qed

lemma smooth_scroll_rounds_up: "smooth_scroll (1 / 2 ^ 60) 1 = SCROLL_SPEED"
proof -
  have n: "\<not> \<bar>1::real\<bar> < 1" by simp
  show ?thesis
    unfolding smooth_scroll_def Let_def fl_near_one
    by (simp only: n if_False mult_1 fl_S fl_tiny_plus_S)
qed

lemma fl_1e16: "fl (10 ^ 16) = 10 ^ 16"
proof -
  have "fl (10 ^ 16) = of_int (round_half_even (10 ^ 16 / 2 ^ (53 - 52))) * 2 ^ (53 - 52)"
    by (rule fl_eval_big) simp_all
  moreover have "(10 ^ 16 / 2 ^ (53 - 52) :: real) = of_int 5000000000000000" by simp
  ultimately have "fl (10 ^ 16) = of_int 5000000000000000 * 2 ^ (53 - 52)"
    by (simp only: rhe_int)
  then show ?thesis by simp
qed

lemma fl_1e16_2: "fl (10 ^ 16 + 2) = 10 ^ 16 + 2"
proof -
  have "fl (10 ^ 16 + 2)
      = of_int (round_half_even ((10 ^ 16 + 2) / 2 ^ (53 - 52))) * 2 ^ (53 - 52)"
    by (rule fl_eval_big) simp_all
  moreover have "((10 ^ 16 + 2) / 2 ^ (53 - 52) :: real) = of_int 5000000000000001" by simp
  ultimately have "fl (10 ^ 16 + 2) = of_int 5000000000000001 * 2 ^ (53 - 52)"
    by (simp only: rhe_int)
  then show ?thesis by simp
qed

text \<open>
  C4, as stated, fails on doubles. From the double \<open>10^16\<close> towards the double
  \<open>10^16 + 2\<close> the step \<open>2 * 0.15\<close> is lost when the sum is rounded, so the offset
  is a fixed point different from the target and no number of iterations reaches it.
  And a gap below 1 does not make the function return the target: for
  \<open>current = 2^-60\<close> and \<open>target = 1\<close> the computed difference is 1 and the result is
  \<open>SCROLL_SPEED\<close>.
\<close>

theorem smooth_scroll_stalls:
  "fl (10 ^ 16) = 10 ^ 16 \<and> fl (10 ^ 16 + 2) = 10 ^ 16 + 2
   \<and> smooth_scroll (10 ^ 16) (10 ^ 16 + 2) = 10 ^ 16
   \<and> scroll_iter 1000 (10 ^ 16) (10 ^ 16 + 2) \<noteq> 10 ^ 16 + 2
   \<and> \<bar>1 - 1 / 2 ^ 60\<bar> < (1::real)
   \<and> smooth_scroll (1 / 2 ^ 60) 1 \<noteq> 1"
proof -
  have "scroll_iter 1000 (10 ^ 16) (10 ^ 16 + 2) = 10 ^ 16"
    using smooth_scroll_stuck by (rule scroll_iter_stuck)
  moreover have "smooth_scroll (1 / 2 ^ 60) 1 \<noteq> 1"
    unfolding smooth_scroll_rounds_up SCROLL_SPEED_val by simp
  ultimately show ?thesis
    using fl_1e16 fl_1e16_2 smooth_scroll_stuck by simp
qed

text \<open>
  C4, amended. For every \<open>current\<close> and \<open>target\<close> of magnitude at most \<open>2^40\<close>:
  once the computed difference \<open>target - current\<close> is below 1 in magnitude the
  function returns the target itself; before that one tick multiplies the gap by
  \<open>1 - SCROLL_SPEED\<close> up to a rounding error of at most \<open>2^-10\<close>, so the gap shrinks
  at least by the factor 0.86; hence the iteration is at the target from some tick on,
  and \<open>n + 1\<close> ticks suffice whenever \<open>|target - current| * 0.86 ^ n \<le> 0.99\<close>.
\<close>

theorem smooth_scroll_converges:
  assumes "\<bar>current\<bar> \<le> 2 ^ 40" and "\<bar>target\<bar> \<le> 2 ^ 40"
  shows "(\<bar>fl (target - current)\<bar> < 1 \<longrightarrow> smooth_scroll current target = target)
   \<and> (1 \<le> \<bar>fl (target - current)\<bar> \<longrightarrow>
        \<bar>(target - smooth_scroll current target) - (target - current) * (1 - SCROLL_SPEED)\<bar>
          \<le> 1 / 2 ^ 10
        \<and> \<bar>target - smooth_scroll current target\<bar> \<le> 86 / 100 * \<bar>target - current\<bar>)
   \<and> (\<forall>n. \<bar>target - current\<bar> * (86 / 100) ^ n \<le> 99 / 100 \<longrightarrow>
        (\<forall>k > n. scroll_iter k current target = target))
   \<and> (\<exists>N. \<forall>k \<ge> N. scroll_iter k current target = target)"
proof (intro conjI allI impI)
  assume "\<bar>fl (target - current)\<bar> < 1"
  then show "smooth_scroll current target = target" by (rule smooth_scroll_near)
next
  have g: "\<bar>target - current\<bar> \<le> 2 ^ 41"
  proof -
    have "\<bar>target - current\<bar> \<le> \<bar>target\<bar> + \<bar>current\<bar>" by linarith
    also have "\<dots> \<le> 2 ^ 40 + 2 ^ 40" using assms(2) assms(1) by (rule add_mono)
    also have "\<dots> = 2 ^ 41" by simp
    finally show ?thesis .
  qed
  assume far: "1 \<le> \<bar>fl (target - current)\<bar>"
  from smooth_scroll_far(1) [OF assms(2) g far]
  show "\<bar>(target - smooth_scroll current target) - (target - current) * (1 - SCROLL_SPEED)\<bar>
          \<le> 1 / 2 ^ 10" by simp
  from smooth_scroll_far(3) [OF assms(2) g far]
  show "\<bar>target - smooth_scroll current target\<bar> \<le> 86 / 100 * \<bar>target - current\<bar>" .
next
  fix n k :: nat
  assume "\<bar>target - current\<bar> * (86 / 100) ^ n \<le> 99 / 100" and "n < k"
  then show "scroll_iter k current target = target"
    using scroll_iter_fixed [OF scroll_iter_reaches [OF assms(2) assms(1)], of n k] by simp
next
  obtain n where "\<bar>target - current\<bar> * (86 / 100) ^ n \<le> 99 / 100"
    using scroll_iter_bound_exists by blast
  then have "\<forall>k \<ge> Suc n. scroll_iter k current target = target"
    using scroll_iter_fixed [OF scroll_iter_reaches [OF assms(2) assms(1)]] by blast
  then show "\<exists>N. \<forall>k \<ge> N. scroll_iter k current target = target" ..
qed

text \<open>From offset 0 towards the target 2: the target is reached within 6 ticks.\<close>

theorem smooth_scroll_converges_witness:
  "\<bar>0::real\<bar> \<le> 2 ^ 40 \<and> \<bar>2::real\<bar> \<le> 2 ^ 40
   \<and> \<bar>2 - 0\<bar> * (86 / 100) ^ 5 \<le> (99 / 100 :: real)
   \<and> scroll_iter 6 0 2 = 2"
proof -
  have a: "\<bar>0::real\<bar> \<le> 2 ^ 40" and b: "\<bar>2::real\<bar> \<le> 2 ^ 40" by simp_all
  have h: "\<bar>2 - 0\<bar> * (86 / 100) ^ 5 \<le> (99 / 100 :: real)"
    by (simp add: power_divide)
  from smooth_scroll_converges [OF a b] h
  have "\<forall>k > 5. scroll_iter k 0 2 = 2" by blast
  then have "scroll_iter 6 0 2 = 2" by simp
  with a b h show ?thesis by blast
qed

text \<open>
  C10, as stated, fails on doubles: from the double \<open>10^16\<close> towards the double
  \<open>10^16 + 2\<close> the result is \<open>10^16\<close> again, so the distance to the target stays 2:
  it equals the old distance although that is not 0.
\<close>

theorem smooth_scroll_distance_kept:
  "fl (10 ^ 16) = 10 ^ 16 \<and> fl (10 ^ 16 + 2) = 10 ^ 16 + 2
   \<and> \<bar>smooth_scroll (10 ^ 16) (10 ^ 16 + 2) - (10 ^ 16 + 2)\<bar> = \<bar>10 ^ 16 - (10 ^ 16 + 2)\<bar>
   \<and> (10 ^ 16 :: real) \<noteq> 10 ^ 16 + 2"
  unfolding smooth_scroll_stuck using fl_1e16 fl_1e16_2 by simp

text \<open>
  C10, amended. For all doubles \<open>current\<close> and \<open>target\<close> of magnitude at most
  \<open>2^1022\<close>, \<open>smooth_scroll\<close> never overshoots: the result lies in the closed interval
  between \<open>current\<close> and \<open>target\<close> and the distance to the target never increases.
  When both have magnitude at most \<open>2^40\<close> the distance equals the old one only when
  that is already 0. The smoothing factor lies strictly between 0 and 1.
\<close>

theorem smooth_scroll_no_overshoot:
  assumes "fl current = current" and "fl target = target"
    and "\<bar>current\<bar> \<le> 2 ^ 1022" and "\<bar>target\<bar> \<le> 2 ^ 1022"
  shows "min current target \<le> smooth_scroll current target
   \<and> smooth_scroll current target \<le> max current target
   \<and> \<bar>smooth_scroll current target - target\<bar> \<le> \<bar>current - target\<bar>
   \<and> (\<bar>current\<bar> \<le> 2 ^ 40 \<and> \<bar>target\<bar> \<le> 2 ^ 40 \<longrightarrow>
        \<bar>smooth_scroll current target - target\<bar> = \<bar>current - target\<bar> \<longrightarrow> current = target)
   \<and> 0 < SCROLL_SPEED \<and> SCROLL_SPEED < 1"
proof -
  note b = smooth_scroll_between [OF assms(1) assms(2)]
  have d: "\<bar>smooth_scroll current target - target\<bar> \<le> \<bar>current - target\<bar>"
    using b by linarith
  have s: "\<bar>smooth_scroll current target - target\<bar> = \<bar>current - target\<bar> \<longrightarrow> current = target"
    if c: "\<bar>current\<bar> \<le> 2 ^ 40" and t: "\<bar>target\<bar> \<le> 2 ^ 40"
  proof (cases "\<bar>fl (target - current)\<bar> < 1")
    case True
    then have "smooth_scroll current target = target" by (rule smooth_scroll_near)
    then show ?thesis by simp
  next
    case False
    then have far: "1 \<le> \<bar>fl (target - current)\<bar>" by simp
    have g: "\<bar>target - current\<bar> \<le> 2 ^ 41"
    proof -
      have "\<bar>target - current\<bar> \<le> \<bar>target\<bar> + \<bar>current\<bar>" by linarith
      also have "\<dots> \<le> 2 ^ 40 + 2 ^ 40" using t c by (rule add_mono)
      also have "\<dots> = 2 ^ 41" by simp
      finally show ?thesis .
    qed
    note f = smooth_scroll_far(2,3) [OF t g far]
    have "\<bar>target - smooth_scroll current target\<bar> \<le> 86 / 100 * \<bar>target - current\<bar>"
      by (rule f(2))
    also have "\<dots> < \<bar>target - current\<bar>"
    proof -
      from f(1) have "target \<noteq> current" by auto
      then show ?thesis by simp
    qed
    finally have "\<bar>target - smooth_scroll current target\<bar> < \<bar>target - current\<bar>" .
    then have "\<bar>smooth_scroll current target - target\<bar> < \<bar>current - target\<bar>"
      by (simp add: abs_minus_commute)
    then show ?thesis by simp
  qed
  from b d s SCROLL_SPEED_bounds show ?thesis by simp
qed

text \<open>From offset 0 towards the target 100 the result is 15, as \<open>100 * 0.15\<close> is in Python.\<close>

lemma smooth_scroll_0_100: "smooth_scroll 0 100 = 15"
proof -
  have d: "fl (100 - 0) = 100" using fl_int [of 100] by simp
  have "fl (100 * SCROLL_SPEED)
      = of_int (round_half_even (100 * SCROLL_SPEED * 2 ^ (52 - 3))) / 2 ^ (52 - 3)"
    by (rule fl_eval_mid) (simp_all add: SCROLL_SPEED_val)
  moreover have "round_half_even (100 * SCROLL_SPEED * 2 ^ (52 - 3)) = 8444249301319679 + 1"
    by (rule rhe_eval(2)) (simp_all add: SCROLL_SPEED_val)
  ultimately have p: "fl (100 * SCROLL_SPEED) = 15" by simp
  have s: "fl (0 + 15) = 15" using fl_int [of 15] by simp
  have n: "\<not> \<bar>100::real\<bar> < 1" by simp
  show ?thesis
    unfolding smooth_scroll_def Let_def d by (simp only: n if_False p s)
qed

theorem smooth_scroll_no_overshoot_witness:
  "fl 0 = 0 \<and> fl 100 = 100 \<and> \<bar>0::real\<bar> \<le> 2 ^ 40 \<and> \<bar>100::real\<bar> \<le> 2 ^ 40
   \<and> smooth_scroll 0 100 = 15
   \<and> \<bar>smooth_scroll 0 100 - 100\<bar> \<noteq> \<bar>(0::real) - 100\<bar>"
proof -
  have a: "fl 0 = 0" and b: "fl 100 = 100" using fl_int [of 100] by simp_all
  have c: "\<bar>0::real\<bar> \<le> 2 ^ 1022" and d: "\<bar>100::real\<bar> \<le> 2 ^ 1022" by simp_all
  have e: "\<bar>0::real\<bar> \<le> 2 ^ 40" and f: "\<bar>100::real\<bar> \<le> 2 ^ 40" by simp_all
  from smooth_scroll_no_overshoot [OF a b c d] e f
  have "\<bar>smooth_scroll 0 100 - 100\<bar> = \<bar>(0::real) - 100\<bar> \<longrightarrow> (0::real) = 100" by blast
  then have "\<bar>smooth_scroll 0 100 - 100\<bar> \<noteq> \<bar>(0::real) - 100\<bar>" by auto
  with a b e f smooth_scroll_0_100 show ?thesis by blast
qed

section \<open>Properties of the timeline builder\<close>

subsection \<open>Frames captured by each beat\<close>

lemma tick_frames [simp]: "frames (tick P c v g s) = frames s @ [render_frame P (current_lines s) (smooth_scroll (scroll_y s) (real_of_int (target_scroll (current_lines s)))) c v None g]"
  by (simp add: tick_def Let_def)

lemma tick_lines [simp]: "current_lines (tick P c v g s) = current_lines s"
  by (simp add: tick_def Let_def)

lemma fold_frames_count:
  assumes "\<And>i s. length (frames (f i s)) = length (frames s) + k i"
  shows "length (frames (fold f xs s)) = length (frames s) + sum_list (map k xs)"
  using assms by (induction xs arbitrary: s) auto

lemma fold_lines_same:
  assumes "\<And>i s. current_lines (f i s) = current_lines s"
  shows "current_lines (fold f xs s) = current_lines s"
  using assms by (induction xs arbitrary: s) auto

lemma sum_list_const: "sum_list (map (\<lambda>_. c) xs) = length xs * (c::nat)"
  by (induction xs) auto

lemma sum_list_indicator: "sum_list (map (\<lambda>i. if Q i then 1 else 0) xs) = length (filter Q xs)"
  by (induction xs) auto

lemma add_pause_count: "length (frames (add_pause P n blink s)) = length (frames s) + nat n"
  unfolding add_pause_def
  by (subst fold_frames_count [where k = "\<lambda>_. 1"]) (simp_all add: sum_list_const)

lemma add_pause_no_prompt_count:
  "length (frames (add_pause_no_prompt P n blink s)) = length (frames s) + nat n"
  unfolding add_pause_no_prompt_def
  by (subst fold_frames_count [where k = "\<lambda>_. 1"]) (simp_all add: sum_list_const)

lemma inline_frames_count:
  "length (frames (fold (\<lambda>_. tick P None True None) [0..<nat n] s)) = length (frames s) + nat n"
  by (subst fold_frames_count [where k = "\<lambda>_. 1"]) (simp_all add: sum_list_const)

lemma add_breathing_pause_count:
  "length (frames (add_breathing_pause P n s)) = length (frames s) + nat n"
  unfolding add_breathing_pause_def
  by (subst fold_frames_count [where k = "\<lambda>_. 1"]) (simp_all add: sum_list_const)

lemma add_spinner_progress_count:
  "length (frames (add_spinner_progress P st n ps pe s)) = length (frames s) + nat n"
  unfolding add_spinner_progress_def
  by (subst fold_frames_count [where k = "\<lambda>_. 1"])
     (simp_all add: sum_list_const spinner_step_def Let_def)

lemma add_output_lines_count:
  "length (frames (add_output_lines P output delay s)) = length (frames s) + length output * nat delay"
  unfolding add_output_lines_def
  by (subst fold_frames_count [where k = "\<lambda>_. nat delay"])
     (simp_all add: sum_list_const inline_frames_count)

lemma typing_fold_count:
  "length (frames (fold (typing_step P text color prefix speed) xs s))
     = length (frames s) + length (filter (\<lambda>i. int i mod speed = 0) xs)"
  by (subst fold_frames_count [where k = "\<lambda>i. if int i mod speed = 0 then 1 else 0"])
     (simp_all add: typing_step_def Let_def sum_list_indicator)

lemma add_typing_count:
  "add_typing P text color prompt speed use_prompt s = Inr s' \<Longrightarrow>
     length (frames s') = length (frames s) + length (filter (\<lambda>i. int i mod speed = 0) [0..<length text])"
  by (auto simp: add_typing_def Let_def typing_fold_count split: if_splits)

lemma exec_step_count:
  "exec_step P st s = Inr s' \<Longrightarrow> length (frames s') = length (frames s) + ticks st"
  by (cases st)
     (auto simp: add_typing_count add_pause_count add_pause_no_prompt_count add_output_lines_count
        add_spinner_progress_count add_breathing_pause_count inline_frames_count
        add_tok_def add_bell_def split: if_splits)

lemma run_count:
  "run P steps s = Inr s' \<Longrightarrow> length (frames s') = length (frames s) + sum_list (map ticks steps)"
proof (induction steps arbitrary: s)
  case Nil
  then show ?case by simp
next
  case (Cons st rest)
  then obtain s1 where a: "exec_step P st s = Inr s1" and b: "run P rest s1 = Inr s'"
    by (auto split: sum.splits)
  from exec_step_count [OF a] Cons.IH [OF b] show ?case by simp
qed

lemma run_append:
  "run P (pre @ post) s = Inr s' \<Longrightarrow> \<exists>mid. run P pre s = Inr mid \<and> run P post mid = Inr s'"
  by (induction pre arbitrary: s) (auto split: sum.splits)

subsection \<open>Effect of each beat on the line buffer\<close>

lemma ticks_lines: "current_lines (fold (\<lambda>i. tick P (c i) (v i) (g i)) xs s) = current_lines s"
  by (rule fold_lines_same) simp

lemma add_pause_lines: "current_lines (add_pause P n blink s) = current_lines s"
  unfolding add_pause_def by (rule fold_lines_same) simp

lemma add_pause_no_prompt_lines: "current_lines (add_pause_no_prompt P n blink s) = current_lines s"
  unfolding add_pause_no_prompt_def by (rule fold_lines_same) simp

lemma add_breathing_pause_lines: "current_lines (add_breathing_pause P n s) = current_lines s"
  unfolding add_breathing_pause_def by (rule fold_lines_same) simp

lemma add_spinner_progress_lines:
  "current_lines (add_spinner_progress P st n ps pe s) = current_lines s"
  unfolding add_spinner_progress_def
  by (rule fold_lines_same) (simp add: spinner_step_def Let_def)

lemma typing_fold_lines:
  "current_lines (fold (typing_step P text color prefix speed) xs s) = current_lines s"
  by (rule fold_lines_same) (simp add: typing_step_def Let_def)

lemma add_typing_lines:
  "add_typing P text color prompt speed use_prompt s = Inr s' \<Longrightarrow> current_lines s' = current_lines s"
  by (auto simp: add_typing_def Let_def typing_fold_lines split: if_splits)

lemma add_output_lines_lines:
  "current_lines (add_output_lines P out delay s) = current_lines s @ out"
  unfolding add_output_lines_def
proof (induction out arbitrary: s)
  case Nil
  then show ?case by simp
next
  case (Cons l rest)
  show ?case by (simp add: Cons.IH ticks_lines)
qed

lemma exec_step_lines:
  assumes "exec_step P st s = Inr s'"
  shows "(\<exists>new. current_lines s' = current_lines s @ new)
         \<or> (\<exists>l. current_lines s \<noteq> []
                \<and> current_lines s' = (current_lines s)[length (current_lines s) - 1 := l])"
proof (cases st)
  case (AddTyping t color prompt speed use_prompt)
  with assms have "current_lines s' = current_lines s @ []" by (simp add: add_typing_lines)
  then show ?thesis by blast
next
  case (AddOutputLines out delay)
  with assms have "current_lines s' = current_lines s @ out"
    by (auto simp: add_output_lines_lines)
  then show ?thesis by blast
next
  case (SetLastLine l)
  with assms show ?thesis by (auto split: if_splits)
next
  case (AppendLine l)
  with assms show ?thesis by auto
qed (use assms in \<open>auto simp: add_tok_def add_bell_def add_pause_lines add_pause_no_prompt_lines
        add_spinner_progress_lines add_breathing_pause_lines ticks_lines\<close>)

lemma exec_step_lines_length:
  "exec_step P st s = Inr s' \<Longrightarrow> length (current_lines s) \<le> length (current_lines s')"
  using exec_step_lines [of P st s s'] by auto

lemma run_lines_length:
  "run P steps s = Inr s' \<Longrightarrow> length (current_lines s) \<le> length (current_lines s')"
proof (induction steps arbitrary: s)
  case Nil
  then show ?case by simp
next
  case (Cons st rest)
  then obtain s1 where a: "exec_step P st s = Inr s1" and b: "run P rest s1 = Inr s'"
    by (auto split: sum.splits)
  from exec_step_lines_length [OF a] Cons.IH [OF b] show ?case by simp
qed

lemma breathing_step_v4_length:
  "length (current_lines (breathing_step_v4 render i s)) = length (current_lines s)"
  by (simp add: breathing_step_v4_def Let_def)

lemma breathing_fold_v4_length:
  "length (current_lines (fold (breathing_step_v4 render) xs s)) = length (current_lines s)"
  by (induction xs arbitrary: s) (simp_all add: breathing_step_v4_length)

lemma add_breathing_pause_v4_length:
  "length (current_lines (add_breathing_pause_v4 render n s)) = length (current_lines s)"
  unfolding add_breathing_pause_v4_def by (rule breathing_fold_v4_length)

subsection \<open>A checked script runs without an exception\<close>

lemma run_succeeds:
  "script_ok (length (current_lines s)) steps \<Longrightarrow> \<exists>s'. run P steps s = Inr s'"
proof (induction steps arbitrary: s)
  case Nil
  then show ?case by simp
next
  case (Cons st rest)
  show ?case
  proof (cases st)
    case (AddTyping t c p sp u)
    with Cons.prems have ok: "sp \<noteq> 0 \<or> t = []" and r: "script_ok (length (current_lines s)) rest"
      by simp_all
    from ok obtain s1 where e: "add_typing P t c p sp u s = Inr s1"
      by (auto simp: add_typing_def)
    with r have "script_ok (length (current_lines s1)) rest" by (simp add: add_typing_lines)
    from Cons.IH [OF this] e AddTyping show ?thesis by simp
  next
    case (SetLastLine l)
    with Cons.prems have "current_lines s \<noteq> []" and r: "script_ok (length (current_lines s)) rest"
      by simp_all
    then show ?thesis using SetLastLine Cons.IH [of "s\<lparr>current_lines := (current_lines s)[length (current_lines s) - 1 := l]\<rparr>"]
      by simp
  next
    case (AppendLine l)
    with Cons.prems show ?thesis
      using Cons.IH [of "s\<lparr>current_lines := current_lines s @ [l]\<rparr>"] by simp
  next
    case (AddOutputLines out d)
    with Cons.prems show ?thesis
      using Cons.IH [of "add_output_lines P out d s"] by (simp add: add_output_lines_lines)
  next
    case AddTok
    with Cons.prems show ?thesis using Cons.IH [of "add_tok s"] by (simp add: add_tok_def)
  next
    case AddBell
    with Cons.prems show ?thesis using Cons.IH [of "add_bell s"] by (simp add: add_bell_def)
  next
    case (AddPause n b)
    with Cons.prems show ?thesis
      using Cons.IH [of "add_pause P n b s"] by (simp add: add_pause_lines)
  next
    case (AddPauseNoPrompt n b)
    with Cons.prems show ?thesis
      using Cons.IH [of "add_pause_no_prompt P n b s"] by (simp add: add_pause_no_prompt_lines)
  next
    case (AddSpinnerProgress t n ps pe)
    with Cons.prems show ?thesis
      using Cons.IH [of "add_spinner_progress P t n ps pe s"]
      by (simp add: add_spinner_progress_lines)
  next
    case (AddBreathingPause n)
    with Cons.prems show ?thesis
      using Cons.IH [of "add_breathing_pause P n s"] by (simp add: add_breathing_pause_lines)
  next
    case (InlineFrames n)
    with Cons.prems show ?thesis
      using Cons.IH [of "fold (\<lambda>_. tick P None True None) [0..<nat n] s"]
      by (simp add: ticks_lines)
  qed
qed

lemma typing_step_lines [simp]:
  "current_lines (typing_step P text color prefix speed i s) = current_lines s"
  by (simp add: typing_step_def Let_def)

lemma add_typing_Inr:
  "speed \<noteq> 0 \<Longrightarrow>
     add_typing P text color prompt speed use_prompt s
       = Inr (fold (typing_step P text color (if prompt \<and> use_prompt then PROMPT else []) speed)
                [0..<length text] s)"
  by (simp add: add_typing_def)

lemma opening_closing_runs:
  "\<exists>s'. run demo_pil (opening_script @ closing_script) initial = Inr s'"
  by (rule run_succeeds)
     (simp add: opening_script_def closing_script_def initial_def numeral_3_eq_3)

text \<open>
  C1. Frame count invariant. At every point of a run (after any prefix \<open>pre\<close> of the
  steps) the length of the frame list is its initial length plus the sum of the ticks
  requested by the steps executed so far, and so is the total at the end. For a
  non-negative count \<open>n\<close>, \<open>add_pause\<close>, \<open>add_pause_no_prompt\<close> and
  \<open>add_spinner_progress\<close> append exactly \<open>n\<close> frames, \<open>add_output_lines\<close> appends
  exactly \<open>len(output) * delay\<close> frames, and \<open>add_typing\<close> with a non-zero speed
  returns and appends one frame per index \<open>i < len(text)\<close> with \<open>i mod speed = 0\<close>.
\<close>

theorem frame_count_invariant:
  "(run P (pre @ post) s = Inr s' \<longrightarrow>
      (\<exists>mid. run P pre s = Inr mid
         \<and> length (frames mid) = length (frames s) + sum_list (map ticks pre))
      \<and> length (frames s') = length (frames s) + sum_list (map ticks (pre @ post)))
   \<and> (0 \<le> n \<longrightarrow>
        int (length (frames (add_pause P n blink s))) = int (length (frames s)) + n
        \<and> int (length (frames (add_pause_no_prompt P n blink s))) = int (length (frames s)) + n
        \<and> int (length (frames (add_spinner_progress P st n ps pe s))) = int (length (frames s)) + n)
   \<and> (0 \<le> delay \<longrightarrow>
        int (length (frames (add_output_lines P out delay s)))
          = int (length (frames s)) + int (length out) * delay)
   \<and> (speed \<noteq> 0 \<longrightarrow>
        (\<exists>s1. add_typing P text color prompt speed use_prompt s = Inr s1
           \<and> length (frames s1)
               = length (frames s) + length (filter (\<lambda>i. int i mod speed = 0) [0..<length text])))"
proof (intro conjI impI)
  assume r: "run P (pre @ post) s = Inr s'"
  then obtain mid where m: "run P pre s = Inr mid" using run_append by blast
  from run_count [OF m] m
  show "\<exists>mid. run P pre s = Inr mid
         \<and> length (frames mid) = length (frames s) + sum_list (map ticks pre)" by blast
  from run_count [OF r]
  show "length (frames s') = length (frames s) + sum_list (map ticks (pre @ post))" .
next
  assume "0 \<le> n"
  then show "int (length (frames (add_pause P n blink s))) = int (length (frames s)) + n"
    and "int (length (frames (add_pause_no_prompt P n blink s))) = int (length (frames s)) + n"
    and "int (length (frames (add_spinner_progress P st n ps pe s))) = int (length (frames s)) + n"
    by (simp_all add: add_pause_count add_pause_no_prompt_count add_spinner_progress_count)
next
  assume "0 \<le> delay"
  then show "int (length (frames (add_output_lines P out delay s)))
          = int (length (frames s)) + int (length out) * delay"
    by (simp add: add_output_lines_count)
next
  assume "speed \<noteq> 0"
  then have "add_typing P text color prompt speed use_prompt s
      = Inr (fold (typing_step P text color (if prompt \<and> use_prompt then PROMPT else []) speed)
               [0..<length text] s)"
    by (simp add: add_typing_def)
  then show "\<exists>s1. add_typing P text color prompt speed use_prompt s = Inr s1
           \<and> length (frames s1)
               = length (frames s) + length (filter (\<lambda>i. int i mod speed = 0) [0..<length text])"
    using add_typing_count by blast
qed

text \<open>
  The theorem at the opening of the script followed by its closing section, run from
  the initial state: 107 frames after the opening, 254 at the end.
\<close>

theorem frame_count_invariant_witness:
  "\<exists>mid s'. run demo_pil (opening_script @ closing_script) initial = Inr s'
      \<and> run demo_pil opening_script initial = Inr mid
      \<and> length (frames mid) = 107 \<and> length (frames s') = 254"
proof -
  obtain s' where r: "run demo_pil (opening_script @ closing_script) initial = Inr s'"
    using opening_closing_runs by blast
  have a: "sum_list (map ticks opening_script) = 107"
    by (simp add: opening_script_def ascii_def FPS_def upt_rec)
  have b: "sum_list (map ticks closing_script) = 147"
    by (simp add: closing_script_def FPS_def numeral_3_eq_3)
  from frame_count_invariant [of demo_pil opening_script closing_script initial s'] r a b
  show ?thesis by (auto simp: initial_def)
qed

text \<open>
  C9. The line buffer never shrinks. Over any run its length is non-decreasing; a
  single step either appends lines (possibly none) or replaces the last line in place;
  \<open>add_output_lines\<close> appends exactly its output; and the breathing pause of
  gen_teaser_v4.py, which recolours the signoff line in the buffer, keeps the length.
\<close>

theorem line_buffer_never_shrinks:
  "(run P steps s = Inr s' \<longrightarrow> length (current_lines s) \<le> length (current_lines s'))
   \<and> (exec_step P st s = Inr s1 \<longrightarrow>
        (\<exists>new. current_lines s1 = current_lines s @ new)
        \<or> (\<exists>l. current_lines s \<noteq> []
               \<and> current_lines s1 = (current_lines s)[length (current_lines s) - 1 := l]))
   \<and> current_lines (add_output_lines P out delay s) = current_lines s @ out
   \<and> length (current_lines (add_breathing_pause_v4 render n s)) = length (current_lines s)"
  using run_lines_length [of P steps s s'] exec_step_lines [of P st s s1]
  by (simp add: add_output_lines_lines add_breathing_pause_v4_length)

lemma closing_runs:
  "\<exists>s'. run demo_pil closing_script (initial\<lparr>current_lines := [wink_line_without]\<rparr>) = Inr s'"
  by (rule run_succeeds) (simp add: closing_script_def numeral_3_eq_3)

text \<open>
  The theorem at the closing section of the script, run on a buffer holding the line
  that the wink animation toggles.
\<close>

theorem line_buffer_never_shrinks_witness:
  "\<exists>s' s1. run demo_pil closing_script (initial\<lparr>current_lines := [wink_line_without]\<rparr>) = Inr s'
     \<and> 1 \<le> length (current_lines s')
     \<and> exec_step demo_pil (SetLastLine wink_line_with) (initial\<lparr>current_lines := [wink_line_without]\<rparr>) = Inr s1
     \<and> current_lines s1 = [wink_line_with]"
proof -
  let ?s = "initial\<lparr>current_lines := [wink_line_without]\<rparr>"
  obtain s' where r: "run demo_pil closing_script ?s = Inr s'"
    using closing_runs by blast
  have e: "exec_step demo_pil (SetLastLine wink_line_with) ?s
             = Inr (?s\<lparr>current_lines := [wink_line_with]\<rparr>)" by simp
  from line_buffer_never_shrinks [of demo_pil closing_script ?s s' "SetLastLine wink_line_with"
      "?s\<lparr>current_lines := [wink_line_with]\<rparr>"] r e
  have "1 \<le> length (current_lines s')" by simp
  with r e show ?thesis by auto
qed

subsection \<open>Typing at speed 1\<close>




subsection \<open>What a typing frame shows\<close>





lemma draw_lines_empty:
  "\<forall>ps \<in> set lines. ps = [] \<Longrightarrow> draw_lines P sc base_y idx lines img = img"
  by (induction lines arbitrary: idx img) (simp_all add: Let_def)






lemma scroll_iter_at_target [simp]: "scroll_iter k target target = target"
  by (induction k) (simp_all add: scroll_iter_def)




section \<open>Properties of the renderer\<close>

lemma draw_title_bar_pixel:
  "0 \<le> x \<Longrightarrow> x \<le> W \<Longrightarrow> 0 \<le> y \<Longrightarrow> y \<le> TITLE_BAR_H \<Longrightarrow>
     draw_title_bar P img (x, y) = draw_title_bar P (\<lambda>_. TITLE_BG) (x, y)"
  by (simp add: draw_title_bar_def Let_def ellipse_def rectangle_def enumerate_eq_zip upt_rec)

lemma render_frame_header:
  assumes "0 \<le> x" "x \<le> W" "0 \<le> y" "y \<le> TITLE_BAR_H"
  shows "render_frame P ls off cur vis extra sc (x, y) = draw_title_bar P (\<lambda>_. TITLE_BG) (x, y)"
  unfolding render_frame_def Let_def by (rule draw_title_bar_pixel [OF assms])

text \<open>
  C8. For any two calls of \<open>render_frame\<close> (any line buffers, scroll offsets, cursor
  contents and visibility, callbacks and signoff colours), every pixel in the top
  \<open>TITLE_BAR_H\<close> rows is the same in both frames: it is the pixel of the title bar
  drawn on its own background, which depends on constants only, because the bar is
  painted after content, cursor and overlay.
\<close>

theorem header_rows_fixed:
  assumes "0 \<le> x" "x < W" "0 \<le> y" "y < TITLE_BAR_H"
  shows "render_frame P lines1 off1 cur1 vis1 extra1 sc1 (x, y)
           = render_frame P lines2 off2 cur2 vis2 extra2 sc2 (x, y)
    \<and> render_frame P lines1 off1 cur1 vis1 extra1 sc1 (x, y)
           = draw_title_bar P (\<lambda>_. TITLE_BG) (x, y)"
  using assms by (simp add: render_frame_header)

text \<open>
  An example: a frame whose callback paints the whole canvas black and an empty frame
  agree at the centre of the first window button, which has the button's colour.
\<close>

theorem header_rows_fixed_witness:
  "render_frame demo_pil [PROMPT] 5000 (Some []) True (Some (\<lambda>img b n. (\<lambda>_. (0, 0, 0)))) (Some GREEN) (48, 48)
     = render_frame demo_pil [] 0 None False None None (48, 48)
   \<and> render_frame demo_pil [PROMPT] 5000 (Some []) True (Some (\<lambda>img b n. (\<lambda>_. (0, 0, 0)))) (Some GREEN) (48, 48)
     = (255, 95, 86)
   \<and> render_frame demo_pil [] 0 None False None None (2000, 95) = TITLE_BG"
proof -
  have h: "(0::int) \<le> 48" "(48::int) < W" "(48::int) < TITLE_BAR_H"
    "(0::int) \<le> 2000" "(2000::int) < W" "(0::int) \<le> 95" "(95::int) < TITLE_BAR_H"
    by (simp_all add: W_def TITLE_BAR_H_def)
  have d1: "draw_title_bar demo_pil (\<lambda>_. TITLE_BG) (48, 48) = (255, 95, 86)"
    by (simp add: draw_title_bar_def Let_def ellipse_def rectangle_def enumerate_eq_zip upt_rec
        demo_pil_def W_def TITLE_BAR_H_def)
  have d2: "draw_title_bar demo_pil (\<lambda>_. TITLE_BG) (2000, 95) = TITLE_BG"
    by (simp add: draw_title_bar_def Let_def ellipse_def rectangle_def enumerate_eq_zip upt_rec
        demo_pil_def W_def TITLE_BAR_H_def)
  note a = header_rows_fixed [OF h(1) h(2) h(1) h(3), of demo_pil "[PROMPT]" 5000 "Some []" True
      "Some (\<lambda>img b n. (\<lambda>_. (0, 0, 0)))" "Some GREEN" "[]" 0 None False None None]
  note b = header_rows_fixed [OF h(4) h(5) h(6) h(7), of demo_pil "[]" 0 None False None None
       "[]" 0 None False None None]
  from a [THEN conjunct1] a [THEN conjunct2, unfolded d1] b [THEN conjunct2, unfolded d2]
  show ?thesis by (intro conjI)
qed

section \<open>Properties of the progress bar\<close>

lemma floor_near:
  fixes k :: int
  assumes "k mod 29 \<noteq> 0" and "\<bar>x - real_of_int k / 29\<bar> \<le> 1 / 2 ^ 41"
  shows "\<lfloor>x\<rfloor> = k div 29"
proof -
  define q where "q = k div 29"
  define r where "r = k mod 29"
  have k: "k = 29 * q + r" by (simp add: q_def r_def)
  have "0 \<le> r" "r < 29" by (simp_all add: r_def)
  with assms(1) have r: "1 \<le> r" "r \<le> 28" by (simp_all add: r_def)
  have e: "real_of_int k / 29 = real_of_int q + real_of_int r / 29"
    unfolding k by simp
  from r have r': "1 \<le> real_of_int r" "real_of_int r \<le> 28" by simp_all
  have s: "(1::real) / 2 ^ 41 < 1 / 29" by simp
  from assms(2) have "real_of_int q + real_of_int r / 29 - 1 / 2 ^ 41 \<le> x"
    and "x \<le> real_of_int q + real_of_int r / 29 + 1 / 2 ^ 41"
    unfolding e by linarith+
  moreover have "1 / 29 \<le> real_of_int r / 29" "real_of_int r / 29 \<le> 28 / 29"
    using r' by simp_all
  ultimately have "real_of_int q \<le> x" "x < real_of_int q + 1"
    using s by linarith+
  then show ?thesis unfolding q_def [symmetric] by (simp add: floor_unique)
qed

lemma fl_one: "fl 1 = 1"
  using fl_int [of 1] by simp

lemma fl_unit:
  assumes "0 \<le> x" "x \<le> 1"
  shows "0 \<le> fl x" "fl x \<le> 1" "\<bar>fl x - x\<bar> \<le> 1 / 2 ^ 53"
proof -
  show "0 \<le> fl x" using assms(1) by (rule fl_nonneg)
  show "fl x \<le> 1" using fl_mono [OF assms(2)] by (simp add: fl_one)
  have "\<bar>x\<bar> \<le> 2 ^ 0" using assms by simp
  from fl_err_nat [OF this] show "\<bar>fl x - x\<bar> \<le> 1 / 2 ^ 53" by simp
qed

lemma progress_scenario:
  assumes "i \<le> 29"
  shows "0 \<le> progress_at 30 0 1 i" "progress_at 30 0 1 i \<le> 1"
    "\<bar>progress_at 30 0 1 i - real i / 29\<bar> \<le> 3 / 2 ^ 53"
proof -
  define r where "r = fl (real i / 29)"
  define m where "m = fl r"
  have p: "progress_at 30 0 1 i = fl m"
    by (simp add: progress_at_def fl_one r_def m_def)
  have x: "0 \<le> real i / 29" "real i / 29 \<le> 1" using assms by simp_all
  note a = fl_unit [OF x, folded r_def]
  note b = fl_unit [OF a(1,2), folded m_def]
  note c = fl_unit [OF b(1,2)]
  show "0 \<le> progress_at 30 0 1 i" "progress_at 30 0 1 i \<le> 1"
    unfolding p using c by blast+
  have "\<bar>fl m - real i / 29\<bar> \<le> \<bar>fl m - m\<bar> + \<bar>m - r\<bar> + \<bar>r - real i / 29\<bar>" by linarith
  also have "\<dots> \<le> 1 / 2 ^ 53 + 1 / 2 ^ 53 + 1 / 2 ^ 53"
    using a(3) b(3) c(3) by (intro add_mono)
  finally show "\<bar>progress_at 30 0 1 i - real i / 29\<bar> \<le> 3 / 2 ^ 53"
    unfolding p by simp
qed

lemma progress_ends: "progress_at 30 0 1 0 = 0" "progress_at 30 0 1 29 = 1"
  by (simp_all add: progress_at_def fl_one)

lemma mod29: "\<forall>i \<in> set [1..<29]. (880 * int i) mod 29 \<noteq> 0 \<and> (100 * int i) mod 29 \<noteq> 0"
  by code_simp

lemma scaled_near:
  assumes "i \<le> 29" "0 \<le> c" "c \<le> 2 ^ 10"
  shows "0 \<le> fl (c * progress_at 30 0 1 i)"
    "\<bar>fl (c * progress_at 30 0 1 i) - c * real i / 29\<bar> \<le> 1 / 2 ^ 41"
proof -
  let ?p = "progress_at 30 0 1 i"
  note p = progress_scenario [OF assms(1)]
  have n: "0 \<le> c * ?p" using assms(2) p(1) by simp
  then show "0 \<le> fl (c * ?p)" by (rule fl_nonneg)
  have "c * ?p \<le> c * 1" using p(2) assms(2) by (rule mult_left_mono)
  then have "\<bar>c * ?p\<bar> \<le> 2 ^ 10" using n assms(3) by simp
  from fl_err_nat [OF this] have e1: "\<bar>fl (c * ?p) - c * ?p\<bar> \<le> 1 / 2 ^ 43" by simp
  have "c * ?p - c * real i / 29 = c * (?p - real i / 29)" by (simp add: algebra_simps)
  then have "\<bar>c * ?p - c * real i / 29\<bar> = \<bar>c\<bar> * \<bar>?p - real i / 29\<bar>"
    by (simp only: abs_mult)
  also have "\<dots> = c * \<bar>?p - real i / 29\<bar>" using assms(2) by simp
  also have "\<dots> \<le> 2 ^ 10 * (3 / 2 ^ 53)"
    using assms(3) p(3) by (intro mult_mono) simp_all
  finally have e2: "\<bar>c * ?p - c * real i / 29\<bar> \<le> 3 / 2 ^ 43" by simp
  have "\<bar>fl (c * ?p) - c * real i / 29\<bar>
      \<le> \<bar>fl (c * ?p) - c * ?p\<bar> + \<bar>c * ?p - c * real i / 29\<bar>" by linarith
  also have "\<dots> \<le> 1 / 2 ^ 43 + 3 / 2 ^ 43" using e1 e2 by (intro add_mono)
  finally show "\<bar>fl (c * ?p) - c * real i / 29\<bar> \<le> 1 / 2 ^ 41" by simp
qed

lemma scaled_floor:
  fixes a :: int
  assumes "i < 30" "0 \<le> a" "a \<le> 1024" "fl (of_int a) = of_int a"
    and "0 < i \<Longrightarrow> i < 29 \<Longrightarrow> (a * int i) mod 29 \<noteq> 0"
  shows "py_int (fl (real_of_int a * progress_at 30 0 1 i)) = (a * int i) div 29"
proof -
  consider "i = 0" | "i = 29" | "0 < i" "i < 29" using assms(1) by linarith
  then show ?thesis
  proof cases
    case 1
    then show ?thesis by (simp add: progress_ends py_int_def)
  next
    case 2
    then show ?thesis using assms(2,4) by (simp add: progress_ends py_int_def)
  next
    case 3
    have i: "i \<le> 29" using 3 by simp
    have c: "0 \<le> real_of_int a" "real_of_int a \<le> 2 ^ 10" using assms(2,3) by simp_all
    note s = scaled_near [OF i c]
    have "\<bar>fl (real_of_int a * progress_at 30 0 1 i) - real_of_int (a * int i) / 29\<bar> \<le> 1 / 2 ^ 41"
      using s(2) by simp
    with assms(5) [OF 3] have "\<lfloor>fl (real_of_int a * progress_at 30 0 1 i)\<rfloor> = (a * int i) div 29"
      by (rule floor_near)
    then show ?thesis using s(1) by (simp add: py_int_nonneg)
  qed
qed

lemma fill_w_scenario:
  assumes "i < 30"
  shows "fill_w (progress_at 30 0 1 i) = (880 * int i) div 29"
proof -
  have "py_int (fl (real_of_int 880 * progress_at 30 0 1 i)) = (880 * int i) div 29"
  proof (rule scaled_floor [OF assms])
    show "fl (real_of_int 880) = real_of_int 880" by (rule fl_int) simp
    show "(880 * int i) mod 29 \<noteq> 0" if "0 < i" "i < 29"
      using mod29 that by simp
  qed simp_all
  then show ?thesis by (simp add: fill_w_def bar_w_def)
qed

lemma draw_extra_visible:
  assumes "TITLE_BAR_H \<le> base_y + (int n + 1) * LINE_H" "base_y + (int n + 1) * LINE_H \<le> H"
  shows "draw_extra P p cc st pc img base_y n
       = progress_bar P (fill_w p) cc pc (base_y + (int n + 1) * LINE_H)
           (status_line P cc st (base_y + int n * LINE_H) img)"
  using assms
  by (simp add: draw_extra_def progress_bar_def status_line_def Let_def bar_w_def LINE_H_def
      algebra_simps)

lemma render_frame_progress:
  assumes "TITLE_BAR_H \<le> bar_row lines off" "bar_row lines off \<le> H"
  shows "render_frame P lines off None True (Some (draw_extra P p cc st pc)) None
       = progress_frame P lines off (fill_w p) cc st pc"
proof -
  have "draw_extra P p cc st pc img (TITLE_BAR_H + PAD_Y - py_int off) (length lines)
      = progress_bar P (fill_w p) cc pc
          (TITLE_BAR_H + PAD_Y - py_int off + (int (length lines) + 1) * LINE_H)
          (status_line P cc st (TITLE_BAR_H + PAD_Y - py_int off + int (length lines) * LINE_H) img)"
    for img
    by (rule draw_extra_visible) (use assms in \<open>simp_all add: bar_row_def\<close>)
  then show ?thesis
    by (simp add: render_frame_def progress_frame_def Let_def algebra_simps)
qed

lemma pct_scenario:
  assumes "i < 30"
  shows "py_int (fl (progress_at 30 0 1 i * 100)) = (100 * int i) div 29"
proof -
  have "py_int (fl (real_of_int 100 * progress_at 30 0 1 i)) = (100 * int i) div 29"
  proof (rule scaled_floor [OF assms])
    show "fl (real_of_int 100) = real_of_int 100" by (rule fl_int) simp
    show "(100 * int i) mod 29 \<noteq> 0" if "0 < i" "i < 29"
      using mod29 that by simp
  qed simp_all
  then show ?thesis by (simp add: mult.commute)
qed

lemma spinner_step_eq:
  "spinner_step P st n ps pe i s =
     s\<lparr>scroll_y := smooth_scroll (scroll_y s)
                     (real_of_int (target_scroll (current_lines s) + LINE_H * 3)),
       frames := frames s @
         [render_frame P (current_lines s)
            (smooth_scroll (scroll_y s) (real_of_int (target_scroll (current_lines s) + LINE_H * 3)))
            None True
            (Some (draw_extra P (progress_at n ps pe i) (CYCLE_COLORS ! (i mod 4)) st
                     (py_int (fl (progress_at n ps pe i * 100)))))
            None]\<rparr>"
  by (simp add: spinner_step_def Let_def CYCLE_COLORS_def)

lemma spinner_fold:
  fixes s :: timeline
  defines "tgt \<equiv> real_of_int (target_scroll (current_lines s) + LINE_H * 3)"
  shows "fold (spinner_step P st n ps pe) [0..<k] s =
     s\<lparr>scroll_y := scroll_iter k (scroll_y s) tgt,
       frames := frames s @
         map (\<lambda>i. render_frame P (current_lines s) (scroll_iter (Suc i) (scroll_y s) tgt)
                  None True
                  (Some (draw_extra P (progress_at n ps pe i) (CYCLE_COLORS ! (i mod 4)) st
                           (py_int (fl (progress_at n ps pe i * 100)))))
                  None) [0..<k]\<rparr>"
proof (induction k)
  case 0
  then show ?case by (simp add: scroll_iter_def)
next
  case (Suc k)
  let ?f = "spinner_step P st n ps pe"
  let ?F = "\<lambda>i. render_frame P (current_lines s) (scroll_iter (Suc i) (scroll_y s) tgt)
                  None True
                  (Some (draw_extra P (progress_at n ps pe i) (CYCLE_COLORS ! (i mod 4)) st
                           (py_int (fl (progress_at n ps pe i * 100)))))
                  None"
  have "fold ?f [0..<Suc k] s = ?f k (fold ?f [0..<k] s)" by simp
  also have "\<dots> = ?f k (s\<lparr>scroll_y := scroll_iter k (scroll_y s) tgt,
       frames := frames s @ map ?F [0..<k]\<rparr>)"
    by (simp only: Suc)
  also have "\<dots> = s\<lparr>scroll_y := scroll_iter (Suc k) (scroll_y s) tgt,
       frames := frames s @ map ?F [0..<Suc k]\<rparr>"
    by (simp add: spinner_step_eq scroll_iter_Suc tgt_def)
  finally show ?case .
qed

text \<open>
  C6. For a progress beat with \<open>n_frames = 30\<close>, \<open>progress_start = 0.0\<close> and
  \<open>progress_end = 1.0\<close>, the bar-fill widths \<open>int(bar_w * p_i)\<close>, \<open>i = 0..29\<close>, are
  \<open>(880 * i) div 29\<close>: non-decreasing, starting at 0 and ending at the full width
  \<open>bar_w\<close>. The beat appends 30 frames; the \<open>i\<close>-th is rendered with the overlay for
  progress \<open>p_i\<close>, and whenever its bar row lies in the viewport it shows the bar
  filled to the \<open>i\<close>-th width.
\<close>

theorem progress_bar_monotone:
  "(let s' = add_spinner_progress P st 30 0 1 s;
        ws = map (\<lambda>i. fill_w (progress_at 30 0 1 i)) [0..<30]
    in sorted ws \<and> hd ws = 0 \<and> last ws = bar_w
     \<and> ws = map (\<lambda>i. (880 * int i) div 29) [0..<30]
     \<and> length (frames s') = length (frames s) + 30
     \<and> (\<forall>i<30.
          let off = scroll_iter (Suc i) (scroll_y s)
                      (real_of_int (target_scroll (current_lines s) + LINE_H * 3));
              cc = CYCLE_COLORS ! (i mod 4);
              pc = (100 * int i) div 29;
              f = frames s' ! (length (frames s) + i)
          in f = render_frame P (current_lines s) off None True
                   (Some (draw_extra P (progress_at 30 0 1 i) cc st pc)) None
           \<and> (TITLE_BAR_H \<le> bar_row (current_lines s) off \<and> bar_row (current_lines s) off \<le> H
                \<longrightarrow> f = progress_frame P (current_lines s) off (ws ! i) cc st pc)))"
proof -
  let ?ws = "map (\<lambda>i. fill_w (progress_at 30 0 1 i)) [0..<30]"
  let ?s' = "add_spinner_progress P st 30 0 1 s"
  let ?off = "\<lambda>i. scroll_iter (Suc i) (scroll_y s)
                      (real_of_int (target_scroll (current_lines s) + LINE_H * 3))"
  let ?F = "\<lambda>i. render_frame P (current_lines s) (?off i) None True
                  (Some (draw_extra P (progress_at 30 0 1 i) (CYCLE_COLORS ! (i mod 4)) st
                           ((100 * int i) div 29)))
                  None"
  have w': "?ws = map (\<lambda>i. (880 * int i) div 29) [0..<30]"
    by (rule map_cong) (simp_all add: fill_w_scenario del: upt_Suc)
  have w: "sorted ?ws \<and> hd ?ws = 0 \<and> last ?ws = bar_w"
    unfolding w' by (simp add: upt_rec bar_w_def)
  have "map (\<lambda>i. render_frame P (current_lines s) (?off i) None True
                  (Some (draw_extra P (progress_at 30 0 1 i) (CYCLE_COLORS ! (i mod 4)) st
                           (py_int (fl (progress_at 30 0 1 i * 100)))))
                  None) [0..<30] = map ?F [0..<30]"
    by (rule map_cong) (simp_all add: pct_scenario del: upt_Suc)
  then have f: "frames ?s' = frames s @ map ?F [0..<30]"
    unfolding add_spinner_progress_def by (simp add: spinner_fold del: upt_Suc)
  have n: "frames ?s' ! (length (frames s) + i) = ?F i" if "i < 30" for i
    unfolding f using that by (simp add: nth_append del: upt_Suc)
  have wi: "?ws ! i = fill_w (progress_at 30 0 1 i)" if "i < 30" for i
    using that by (simp del: upt_Suc)
  have p: "?F i = progress_frame P (current_lines s) (?off i) (?ws ! i)
                    (CYCLE_COLORS ! (i mod 4)) st ((100 * int i) div 29)"
    if "i < 30" "TITLE_BAR_H \<le> bar_row (current_lines s) (?off i)"
      "bar_row (current_lines s) (?off i) \<le> H" for i
    unfolding wi [OF that(1)] using that(2,3) by (rule render_frame_progress)
  have len: "length (frames ?s') = length (frames s) + 30" unfolding f by simp
  show ?thesis
    unfolding Let_def
  proof (intro conjI allI impI)
    show "sorted ?ws" "hd ?ws = 0" "last ?ws = bar_w" using w by blast+
    show "?ws = map (\<lambda>i. (880 * int i) div 29) [0..<30]" by (rule w')
    show "length (frames ?s') = length (frames s) + 30" by (rule len)
  next
    fix i :: nat
    assume i: "i < 30"
    show "frames ?s' ! (length (frames s) + i) = ?F i" using i by (rule n)
    assume "TITLE_BAR_H \<le> bar_row (current_lines s) (?off i)
          \<and> bar_row (current_lines s) (?off i) \<le> H"
    then have "?F i = progress_frame P (current_lines s) (?off i) (?ws ! i)
                    (CYCLE_COLORS ! (i mod 4)) st ((100 * int i) div 29)"
      using p [OF i] by blast
    then show "frames ?s' ! (length (frames s) + i)
        = progress_frame P (current_lines s) (?off i) (?ws ! i)
                    (CYCLE_COLORS ! (i mod 4)) st ((100 * int i) div 29)"
      using n [OF i] by simp
  qed
qed

lemma progress_frame_pixels:
  "progress_frame demo_pil (replicate 10 []) 276 303 CYAN st 34 (588, 950) = BAR_BG"
  "progress_frame demo_pil (replicate 10 []) 276 455 YELLOW st 51 (588, 950) = YELLOW"
  by (simp_all add: progress_frame_def progress_bar_def status_line_def Let_def py_int_def
      draw_lines_empty draw_title_bar_def rectangle_def rounded_rectangle_def
      ellipse_def enumerate_eq_zip upt_rec demo_pil_def
      W_def H_def TITLE_BAR_H_def PAD_X_def PAD_Y_def LINE_H_def)

text \<open>
  The beat on 10 empty lines with the viewport at rest: a pixel 400 to the right of
  the bar's left edge is still track colour in frame 10 (width 303) and filled in
  frame 15 (width 455).
\<close>

theorem progress_bar_monotone_witness:
  "(let s' = add_spinner_progress demo_pil (ascii ''scoring warm paths...'') 30 0 1 spinner_state
    in length (frames s') = 30
     \<and> (frames s' ! 10) (588, 950) = BAR_BG
     \<and> (frames s' ! 15) (588, 950) = YELLOW)"
proof -
  let ?st = "ascii ''scoring warm paths...''"
  let ?s' = "add_spinner_progress demo_pil ?st 30 0 1 spinner_state"
  have z: "scroll_y spinner_state = 276" "length (frames spinner_state) = 0"
    "current_lines spinner_state = replicate 10 []"
    by (simp_all add: spinner_state_def initial_def)
  have off: "scroll_iter (Suc i) (scroll_y spinner_state)
       (real_of_int (target_scroll (current_lines spinner_state) + LINE_H * 3)) = 276" for i
    by (simp add: z target_scroll_def content_bottom_def
        H_def TITLE_BAR_H_def PAD_Y_def LINE_H_def)
  have row: "bar_row (current_lines spinner_state) 276 = 912"
    by (simp add: z bar_row_def py_int_def TITLE_BAR_H_def PAD_Y_def LINE_H_def)
  have i0: "length (frames spinner_state) + i = i" for i by (simp add: z)
  have v: "TITLE_BAR_H \<le> (912::int) \<and> (912::int) \<le> H" by (simp add: TITLE_BAR_H_def H_def)
  have lt: "(10::nat) < 30" "(15::nat) < 30" by simp_all
  note t = progress_bar_monotone [of demo_pil ?st spinner_state, unfolded Let_def]
  from t have len: "length (frames ?s') = length (frames spinner_state) + 30" by blast
  from t have ws: "map (\<lambda>i. fill_w (progress_at 30 0 1 i)) [0..<30]
      = map (\<lambda>i. (880 * int i) div 29) [0..<30]" by blast
  from t have a: "\<forall>i<30.
          frames ?s' ! (length (frames spinner_state) + i)
            = render_frame demo_pil (current_lines spinner_state)
                (scroll_iter (Suc i) (scroll_y spinner_state)
                   (real_of_int (target_scroll (current_lines spinner_state) + LINE_H * 3)))
                None True
                (Some (draw_extra demo_pil (progress_at 30 0 1 i) (CYCLE_COLORS ! (i mod 4)) ?st
                         ((100 * int i) div 29))) None
           \<and> (TITLE_BAR_H \<le> bar_row (current_lines spinner_state)
                  (scroll_iter (Suc i) (scroll_y spinner_state)
                     (real_of_int (target_scroll (current_lines spinner_state) + LINE_H * 3)))
                \<and> bar_row (current_lines spinner_state)
                  (scroll_iter (Suc i) (scroll_y spinner_state)
                     (real_of_int (target_scroll (current_lines spinner_state) + LINE_H * 3)))
                  \<le> H
                \<longrightarrow> frames ?s' ! (length (frames spinner_state) + i)
                    = progress_frame demo_pil (current_lines spinner_state)
                        (scroll_iter (Suc i) (scroll_y spinner_state)
                           (real_of_int (target_scroll (current_lines spinner_state) + LINE_H * 3)))
                        (map (\<lambda>i. fill_w (progress_at 30 0 1 i)) [0..<30] ! i)
                        (CYCLE_COLORS ! (i mod 4)) ?st ((100 * int i) div 29))"
    by blast
  note a10 = a [rule_format, OF lt(1), unfolded off row i0 ws]
  note a15 = a [rule_format, OF lt(2), unfolded off row i0 ws]
  from a10 v have "frames ?s' ! 10 = progress_frame demo_pil (current_lines spinner_state) 276
       (map (\<lambda>i. (880 * int i) div 29) [0..<30] ! 10) (CYCLE_COLORS ! (10 mod 4)) ?st
       ((100 * int 10) div 29)" by blast
  then have f10: "frames ?s' ! 10 = progress_frame demo_pil (replicate 10 []) 276 303 CYAN ?st 34"
    by (simp add: z CYCLE_COLORS_def)
  from a15 v have "frames ?s' ! 15 = progress_frame demo_pil (current_lines spinner_state) 276
       (map (\<lambda>i. (880 * int i) div 29) [0..<30] ! 15) (CYCLE_COLORS ! (15 mod 4)) ?st
       ((100 * int 15) div 29)" by blast
  then have f15: "frames ?s' ! 15 = progress_frame demo_pil (replicate 10 []) 276 455 YELLOW ?st 51"
    by (simp add: z CYCLE_COLORS_def)
  from len f10 f15 progress_frame_pixels [of ?st] show ?thesis
    unfolding Let_def by (simp add: z)
qed

section \<open>Properties of the audio synthesizer\<close>

lemma event_pos_eq: "event_pos f = (int f * 3675) div 2"
proof -
  have "real f / real_of_int FPS * real_of_int SAMPLE_RATE = real_of_int (int f * 3675) / real_of_int 2"
    by (simp add: FPS_def SAMPLE_RATE_def)
  moreover have "0 \<le> real f / real_of_int FPS * real_of_int SAMPLE_RATE"
    by (simp add: FPS_def SAMPLE_RATE_def)
  ultimately show ?thesis
    unfolding event_pos_def by (simp only: py_int_nonneg floor_divide_of_int_eq)
qed

lemma total_samples_eq: "total_samples n = (int n * 3675) div 2"
  using event_pos_eq [of n] by (simp add: total_samples_def event_pos_def Let_def)

lemma event_pos_mono: "n \<le> f \<Longrightarrow> total_samples n \<le> event_pos f"
  unfolding total_samples_eq event_pos_eq by (intro zdiv_mono1) simp_all

lemma add_wave_fold_skip:
  "n_samples \<le> pos \<Longrightarrow>
     fold (\<lambda>(i, val) a. let idx = pos + int i in
             if idx < n_samples then a[nat idx := a ! nat idx + val] else a)
       (enumerate k wave) audio = audio"
  by (induction wave arbitrary: k) (simp_all add: Let_def)

lemma add_wave_skip: "n_samples \<le> pos \<Longrightarrow> add_wave n_samples pos wave audio = audio"
  unfolding add_wave_def by (rule add_wave_fold_skip)

lemma mix_events_skip:
  "n_samples \<le> event_pos f \<Longrightarrow>
     mix_events n_samples wave (fs1 @ f # fs2) audio = mix_events n_samples wave (fs1 @ fs2) audio"
  by (simp add: mix_events_def add_wave_skip)

lemma length_add_wave_fold:
  "length (fold (\<lambda>(i, val) a. let idx = pos + int i in
             if idx < n_samples then a[nat idx := a ! nat idx + val] else a)
       (enumerate k wave) audio) = length audio"
  by (induction wave arbitrary: k audio) (simp_all add: Let_def)

lemma length_add_wave: "length (add_wave n_samples pos wave audio) = length audio"
  unfolding add_wave_def by (rule length_add_wave_fold)

lemma length_mix_events: "length (mix_events n_samples wave fs audio) = length audio"
  unfolding mix_events_def by (induction fs arbitrary: audio) (simp_all add: length_add_wave)

lemma length_generate_audio:
  "length (generate_audio tok bell n tfs bfs) = nat ((int n * 3675) div 2)"
  by (simp add: generate_audio_def mix_audio_def Let_def length_mix_events total_samples_eq)

lemma spec_floor: "\<lfloor>real n / real_of_int FPS * real_of_int SAMPLE_RATE\<rfloor> = (int n * 3675) div 2"
proof -
  have "real n / real_of_int FPS * real_of_int SAMPLE_RATE = real_of_int (int n * 3675) / real_of_int 2"
    by (simp add: FPS_def SAMPLE_RATE_def)
  then show ?thesis by (simp only: floor_divide_of_int_eq)
qed

lemma spec_ceiling: "\<lceil>real n / real_of_int FPS * real_of_int SAMPLE_RATE\<rceil> = (int n * 3675 + 1) div 2"
proof -
  have "real n / real_of_int FPS * real_of_int SAMPLE_RATE = real_of_int (int n * 3675) / real_of_int 2"
    by (simp add: FPS_def SAMPLE_RATE_def)
  then have "\<lceil>real n / real_of_int FPS * real_of_int SAMPLE_RATE\<rceil> = - ((- (int n * 3675)) div 2)"
    by (simp only: ceiling_divide_eq_div)
  also have "\<dots> = (int n * 3675 + 1) div 2" by presburger
  finally show ?thesis .
qed

lemma half_eq_even: "((m::nat) div 2 = (m + 1) div 2) = even m"
  by presburger

lemma nat_half_a: "nat ((int n * 3675) div 2) = (n * 3675) div 2"
proof -
  have "(int n * 3675) div 2 = int ((n * 3675) div 2)" by (simp add: zdiv_int)
  then show ?thesis by (simp only: nat_int)
qed

lemma nat_half_b: "nat ((int n * 3675 + 1) div 2) = (n * 3675 + 1) div 2"
proof -
  have "(int n * 3675 + 1) div 2 = int ((n * 3675 + 1) div 2)" by (simp add: zdiv_int)
  then show ?thesis by (simp only: nat_int)
qed

text \<open>
  C2, as stated, fails: for one frame the buffer has 1837 samples, while
  \<open>ceil(1 / FPS * SAMPLE_RATE)\<close> is 1838.
\<close>

theorem audio_length_not_ceiling:
  "length (generate_audio [] [] 1 [] []) = 1837
   \<and> nat \<lceil>real 1 / real_of_int FPS * real_of_int SAMPLE_RATE\<rceil> = 1838
   \<and> length (generate_audio [] [] 1 [] [])
       \<noteq> nat \<lceil>real 1 / real_of_int FPS * real_of_int SAMPLE_RATE\<rceil>"
proof -
  have a: "length (generate_audio [] [] 1 [] []) = 1837"
    unfolding length_generate_audio by simp
  have b: "nat \<lceil>real 1 / real_of_int FPS * real_of_int SAMPLE_RATE\<rceil> = 1838"
    unfolding spec_ceiling by simp
  show ?thesis unfolding a b by simp
qed

text \<open>
  C2, amended. For every total frame count \<open>n\<close>, the buffer that \<open>generate_audio\<close>
  allocates and writes has \<open>floor(n / FPS * SAMPLE_RATE)\<close> samples, that is
  \<open>(n * 3675) div 2\<close>; this is the ceiling exactly when \<open>n\<close> is even.
\<close>

theorem audio_length_truncated:
  "length (generate_audio tok bell n tfs bfs)
     = nat \<lfloor>real n / real_of_int FPS * real_of_int SAMPLE_RATE\<rfloor>
   \<and> length (generate_audio tok bell n tfs bfs) = (n * 3675) div 2
   \<and> (length (generate_audio tok bell n tfs bfs)
        = nat \<lceil>real n / real_of_int FPS * real_of_int SAMPLE_RATE\<rceil>) = even n"
proof -
  have c: "((n * 3675) div 2 = (n * 3675 + 1) div 2) = even n"
    unfolding half_eq_even by simp
  show ?thesis
    unfolding length_generate_audio spec_floor spec_ceiling nat_half_a nat_half_b c
    by (intro conjI refl)
qed

theorem audio_length_truncated_witness:
  "length (generate_audio [1 / 2, 1 / 4] [1] 3 [0, 1] [2]) = 5512
   \<and> length (generate_audio [1 / 2, 1 / 4] [1] 3 [0, 1] [2])
       \<noteq> nat \<lceil>real 3 / real_of_int FPS * real_of_int SAMPLE_RATE\<rceil>
   \<and> length (generate_audio [1 / 2, 1 / 4] [1] 2 [0, 1] [])
       = nat \<lceil>real 2 / real_of_int FPS * real_of_int SAMPLE_RATE\<rceil>"
proof -
  note w3 = audio_length_truncated [of "[1 / 2, 1 / 4]" "[1]" 3 "[0, 1]" "[2]"]
  note w2 = audio_length_truncated [of "[1 / 2, 1 / 4]" "[1]" 2 "[0, 1]" "[]"]
  from w3 have "length (generate_audio [1 / 2, 1 / 4] [1] 3 [0, 1] [2]) = 3 * 3675 div 2"
    by (rule conjunct2 [THEN conjunct1])
  then have a: "length (generate_audio [1 / 2, 1 / 4] [1] 3 [0, 1] [2]) = 5512" by simp
  from w3 have "(length (generate_audio [1 / 2, 1 / 4] [1] 3 [0, 1] [2])
        = nat \<lceil>real 3 / real_of_int FPS * real_of_int SAMPLE_RATE\<rceil>) = even (3::nat)"
    by (rule conjunct2 [THEN conjunct2])
  then have b: "length (generate_audio [1 / 2, 1 / 4] [1] 3 [0, 1] [2])
       \<noteq> nat \<lceil>real 3 / real_of_int FPS * real_of_int SAMPLE_RATE\<rceil>"
    by (simp only: odd_numeral simp_thms)
  from w2 have "(length (generate_audio [1 / 2, 1 / 4] [1] 2 [0, 1] [])
        = nat \<lceil>real 2 / real_of_int FPS * real_of_int SAMPLE_RATE\<rceil>) = even (2::nat)"
    by (rule conjunct2 [THEN conjunct2])
  then have c: "length (generate_audio [1 / 2, 1 / 4] [1] 2 [0, 1] [])
        = nat \<lceil>real 2 / real_of_int FPS * real_of_int SAMPLE_RATE\<rceil>"
    by (simp only: even_numeral simp_thms)
  from a b c show ?thesis by (intro conjI)
qed

text \<open>
  C5. An event whose frame index is at least the total frame count starts at or after
  the end of the buffer, so every sample of its waveform has an index outside the
  buffer and is skipped: mixing with the event, wherever it stands in the list of toks
  or of bells, gives the buffer and the written samples that mixing without it gives.
  The functions have no failure branch and report nothing.
\<close>

theorem late_event_dropped:
  assumes "total_frames \<le> f"
  shows "total_samples total_frames \<le> event_pos f + int i
    \<and> add_wave (total_samples total_frames) (event_pos f) wave audio = audio
    \<and> mix_audio tok bell total_frames (tf1 @ f # tf2) bf
        = mix_audio tok bell total_frames (tf1 @ tf2) bf
    \<and> mix_audio tok bell total_frames tf (bf1 @ f # bf2)
        = mix_audio tok bell total_frames tf (bf1 @ bf2)
    \<and> generate_audio tok bell total_frames (tf1 @ f # tf2) bf
        = generate_audio tok bell total_frames (tf1 @ tf2) bf
    \<and> generate_audio tok bell total_frames tf (bf1 @ f # bf2)
        = generate_audio tok bell total_frames tf (bf1 @ bf2)"
proof -
  from assms have p: "total_samples total_frames \<le> event_pos f" by (rule event_pos_mono)
  then have "total_samples total_frames \<le> event_pos f + int i" by simp
  moreover from p have "add_wave (total_samples total_frames) (event_pos f) wave audio = audio"
    by (rule add_wave_skip)
  moreover have t: "mix_audio tok bell total_frames (tf1 @ f # tf2) bf
        = mix_audio tok bell total_frames (tf1 @ tf2) bf"
    by (simp add: mix_audio_def Let_def mix_events_skip [OF p])
  moreover have b: "mix_audio tok bell total_frames tf (bf1 @ f # bf2)
        = mix_audio tok bell total_frames tf (bf1 @ bf2)"
    by (simp add: mix_audio_def Let_def mix_events_skip [OF p])
  ultimately show ?thesis by (simp add: generate_audio_def)
qed

theorem late_event_dropped_witness:
  "(2::nat) \<le> 2
   \<and> generate_audio [1 / 2, 1 / 4] [1] 2 [0, 2, 1] [1] = generate_audio [1 / 2, 1 / 4] [1] 2 [0, 1] [1]
   \<and> generate_audio [1 / 2, 1 / 4] [1] 2 [0] [5, 1] = generate_audio [1 / 2, 1 / 4] [1] 2 [0] [1]"
  using late_event_dropped [of 2 2 0 "[]" "[]" "[1 / 2, 1 / 4]" "[1]" "[0]" "[1]" "[1]" "[0]" "[]" "[]"]
    late_event_dropped [of 2 5 0 "[]" "[]" "[1 / 2, 1 / 4]" "[1]" "[]" "[]" "[]" "[0]" "[]" "[1]"]
  by simp

end
